theory Spec2Isabelle
  imports Complex_Main "HOL-Library.Sublist"
begin

unbundle bit_operations_syntax

section \<open>Python values used by the deduplication pass\<close>

text \<open>
  The exceptions that can occur in \<^verbatim>\<open>deduplicate\<close>: \<^verbatim>\<open>int()\<close> of a non-finite float
  raises \<^verbatim>\<open>ValueError\<close> (NaN) or \<^verbatim>\<open>OverflowError\<close> (infinity), indexing a list out of
  range raises \<^verbatim>\<open>IndexError\<close>, and Pillow raises its own exceptions (file not found,
  unidentified or truncated image), which are all subclasses of \<^verbatim>\<open>Exception\<close>.
\<close>

datatype error = ValueError | OverflowError | IndexError | PillowError

type_synonym path = string

subsection \<open>Floats\<close>

text \<open>
  A Python \<^verbatim>\<open>float\<close> is an IEEE 754 binary64 value: a finite rational, an infinity or
  NaN (the sign of zero plays no role below: \<^verbatim>\<open>int(-0.0) == 0\<close>). Arithmetic computes
  the exact result and rounds it to the nearest representable value, ties to even;
  a rounded magnitude of \<open>2 ^ 1024\<close> or more overflows to an infinity.
\<close>

datatype pyfloat = Finite rat | PosInf | NegInf | NaN

fun bit_length :: "nat \<Rightarrow> nat" where
  "bit_length n = (if n = 0 then 0 else Suc (bit_length (n div 2)))"

declare bit_length.simps [simp del]

text \<open>For \<open>0 < x\<close>, the exponent \<open>e\<close> with \<open>2 powi e \<le> x < 2 powi (e + 1)\<close>.\<close>

definition floor_log2 :: "rat \<Rightarrow> int" where
  "floor_log2 x =
     (let k = int (bit_length (nat (fst (quotient_of x))))
            - int (bit_length (nat (snd (quotient_of x))))
      in if 2 powi k \<le> x then k else k - 1)"

text \<open>
  The exponent of the unit in the last place of a binary64 value of the magnitude of
  \<open>x\<close>: 52 fraction bits below the leading bit, and no finer than the subnormal spacing
  \<open>2 powi (- 1074)\<close>.
\<close>

definition ulp_exp :: "rat \<Rightarrow> int" where
  "ulp_exp x = max (floor_log2 \<bar>x\<bar>) (- 1022) - 52"

definition round_half_even :: "rat \<Rightarrow> int" where
  "round_half_even y =
     (let f = \<lfloor>y\<rfloor>; r = y - of_int f
      in if r < 1 / 2 then f
         else if 1 / 2 < r then f + 1
         else if even f then f else f + 1)"

definition round_value :: "rat \<Rightarrow> rat" where
  "round_value x =
     (if x = 0 then 0
      else of_int (round_half_even (x / 2 powi ulp_exp x)) * 2 powi ulp_exp x)"

definition round_double :: "rat \<Rightarrow> pyfloat" where
  "round_double x =
     (let y = round_value x
      in if 2 ^ 1024 \<le> \<bar>y\<bar> then (if 0 < y then PosInf else NegInf) else Finite y)"

fun float_sub :: "pyfloat \<Rightarrow> pyfloat \<Rightarrow> pyfloat" where
  "float_sub NaN _ = NaN"
| "float_sub _ NaN = NaN"
| "float_sub PosInf PosInf = NaN"
| "float_sub NegInf NegInf = NaN"
| "float_sub PosInf _ = PosInf"
| "float_sub NegInf _ = NegInf"
| "float_sub (Finite a) PosInf = NegInf"
| "float_sub (Finite a) NegInf = PosInf"
| "float_sub (Finite a) (Finite b) = round_double (a - b)"

fun float_neg :: "pyfloat \<Rightarrow> pyfloat" where
  "float_neg (Finite a) = Finite (- a)"
| "float_neg PosInf = NegInf"
| "float_neg NegInf = PosInf"
| "float_neg NaN = NaN"

fun float_mul :: "pyfloat \<Rightarrow> pyfloat \<Rightarrow> pyfloat" where
  "float_mul NaN _ = NaN"
| "float_mul _ NaN = NaN"
| "float_mul (Finite a) (Finite b) = round_double (a * b)"
| "float_mul (Finite a) y =
     (if a = 0 then NaN else if 0 < a then y else float_neg y)"
| "float_mul x (Finite b) =
     (if b = 0 then NaN else if 0 < b then x else float_neg x)"
| "float_mul x y = (if x = y then PosInf else NegInf)"

text \<open>\<^verbatim>\<open>float(n)\<close> for an integer operand of a float operation.\<close>

definition float_of_int :: "int \<Rightarrow> pyfloat" where
  "float_of_int n = round_double (of_int n)"

text \<open>\<^verbatim>\<open>int(x)\<close> truncates toward zero and raises on a non-finite float.\<close>

fun py_int :: "pyfloat \<Rightarrow> error + int" where
  "py_int (Finite q) = Inr (if 0 \<le> q then \<lfloor>q\<rfloor> else \<lceil>q\<rceil>)"
| "py_int NaN = Inl ValueError"
| "py_int PosInf = Inl OverflowError"
| "py_int NegInf = Inl OverflowError"

subsection \<open>\<^verbatim>\<open>bin\<close> and \<^verbatim>\<open>str.count\<close>\<close>

fun bin_digits :: "nat \<Rightarrow> string" where
  "bin_digits n =
     (if n < 2 then [if n = 0 then CHR ''0'' else CHR ''1'']
      else bin_digits (n div 2) @ [if n mod 2 = 0 then CHR ''0'' else CHR ''1''])"

declare bin_digits.simps [simp del]

definition bin :: "int \<Rightarrow> string" where
  "bin n = (if n < 0 then ''-0b'' else ''0b'') @ bin_digits (nat \<bar>n\<bar>)"

section \<open>Perceptual hash\<close>

text \<open>
  Pillow is an external library. \<open>image_open\<close> is \<^verbatim>\<open>Image.open\<close>; \<open>gray_resample\<close> is
  \<^verbatim>\<open>list(img.convert("L").resize(size, Image.LANCZOS).getdata())\<close>, the row-major list
  of the luminance values of the resized image. Either may raise.
\<close>

record 'img pillow =
  image_open :: "path \<Rightarrow> error + 'img"
  gray_resample :: "'img \<Rightarrow> nat \<times> nat \<Rightarrow> error + int list"

definition HASH_SIZE :: nat where
  "HASH_SIZE = 16"

text \<open>The inner loop \<^verbatim>\<open>for col in range(_HASH_SIZE)\<close>, on the columns still to visit.\<close>

fun phash_cols :: "int list \<Rightarrow> nat \<Rightarrow> nat list \<Rightarrow> int \<Rightarrow> error + int" where
  "phash_cols pixels row [] bits = Inr bits"
| "phash_cols pixels row (col # cols) bits =
     (let idx = row * (HASH_SIZE + 1) + col
      in if idx + 1 < length pixels
         then phash_cols pixels row cols
                (push_bit 1 bits OR (if pixels ! idx > pixels ! (idx + 1) then 1 else 0))
         else Inl IndexError)"

text \<open>The outer loop \<^verbatim>\<open>for row in range(_HASH_SIZE)\<close>.\<close>

fun phash_rows :: "int list \<Rightarrow> nat list \<Rightarrow> int \<Rightarrow> error + int" where
  "phash_rows pixels [] bits = Inr bits"
| "phash_rows pixels (row # rows) bits =
     (case phash_cols pixels row [0..<HASH_SIZE] bits of
        Inl e \<Rightarrow> Inl e
      | Inr bits' \<Rightarrow> phash_rows pixels rows bits')"

definition phash :: "'img pillow \<Rightarrow> 'img \<Rightarrow> error + int" where
  "phash P img =
     (case gray_resample P img (HASH_SIZE + 1, HASH_SIZE) of
        Inl e \<Rightarrow> Inl e
      | Inr pixels \<Rightarrow> phash_rows pixels [0..<HASH_SIZE] 0)"

definition hamming :: "int \<Rightarrow> int \<Rightarrow> nat" where
  "hamming a b = count_list (bin (a XOR b)) CHR ''1''"

section \<open>Deduplication\<close>

datatype log_record =
  Info_frames_in nat int pyfloat
| Warning_skipping path error
| Info_kept nat

record loop_state =
  kept :: "path list"
  kept_hashes :: "int list"
  logged :: "log_record list"

definition max_dist_of :: "pyfloat \<Rightarrow> error + int" where
  "max_dist_of similarity_threshold =
     py_int (float_mul (float_sub (Finite 1) similarity_threshold)
                       (float_of_int (int (HASH_SIZE * HASH_SIZE))))"

text \<open>The body of the \<^verbatim>\<open>try\<close>: \<^verbatim>\<open>_phash(Image.open(path))\<close>.\<close>

definition fingerprint :: "'img pillow \<Rightarrow> path \<Rightarrow> error + int" where
  "fingerprint P path =
     (case image_open P path of Inl e \<Rightarrow> Inl e | Inr img \<Rightarrow> phash P img)"

text \<open>The loop \<^verbatim>\<open>for path in paths\<close>, on the paths still to visit.\<close>

fun dedup_loop :: "'img pillow \<Rightarrow> int \<Rightarrow> path list \<Rightarrow> loop_state \<Rightarrow> loop_state" where
  "dedup_loop P max_dist [] s = s"
| "dedup_loop P max_dist (path # paths) s =
     (case fingerprint P path of
        Inl exc \<Rightarrow>
          dedup_loop P max_dist paths (s\<lparr>logged := logged s @ [Warning_skipping path exc]\<rparr>)
      | Inr h \<Rightarrow>
          if kept_hashes s = [] \<or> int (hamming h (last (kept_hashes s))) > max_dist
          then dedup_loop P max_dist paths
                 (s\<lparr>kept := kept s @ [path], kept_hashes := kept_hashes s @ [h]\<rparr>)
          else dedup_loop P max_dist paths s)"

text \<open>
  The body of \<^verbatim>\<open>deduplicate\<close> up to its \<^verbatim>\<open>return\<close>: the final state of the loop, with
  the records logged before and after it. Nothing is logged and no path is read when
  \<^verbatim>\<open>int()\<close> raises.
\<close>

definition deduplicate_run :: "'img pillow \<Rightarrow> path list \<Rightarrow> pyfloat \<Rightarrow> error + loop_state" where
  "deduplicate_run P paths similarity_threshold =
     (case max_dist_of similarity_threshold of
        Inl e \<Rightarrow> Inl e
      | Inr max_dist \<Rightarrow>
          let s = dedup_loop P max_dist paths
                    \<lparr>kept = [], kept_hashes = [],
                     logged = [Info_frames_in (length paths) max_dist similarity_threshold]\<rparr>
          in Inr (s\<lparr>logged := logged s @ [Info_kept (length (kept s))]\<rparr>))"

text \<open>\<^verbatim>\<open>deduplicate\<close> returns the list \<open>kept\<close>.\<close>

definition deduplicate :: "'img pillow \<Rightarrow> path list \<Rightarrow> pyfloat \<Rightarrow> error + path list" where
  "deduplicate P paths similarity_threshold =
     (case deduplicate_run P paths similarity_threshold of
        Inl e \<Rightarrow> Inl e
      | Inr s \<Rightarrow> Inr (kept s))"

section \<open>Sample frames\<close>

text \<open>
  Concrete grayscale frames of exactly 17 by 16 pixels, for which Pillow's
  \<^verbatim>\<open>convert("L")\<close> and \<^verbatim>\<open>resize((17, 16))\<close> return a copy. A row is built from the
  16 comparison bits it shall produce: going left from a last pixel 0, the luminance
  rises by one exactly where the bit is set.
\<close>

definition row_of_bits :: "bool list \<Rightarrow> int list" where
  "row_of_bits bs = foldr (\<lambda>b r. (if b then hd r + 1 else hd r) # r) bs [0]"

text \<open>\<open>frame k\<close>, for \<open>k \<le> 32\<close>: the last \<open>k\<close> comparisons of the grid hold, no other.\<close>

definition frame :: "nat \<Rightarrow> int list" where
  "frame k =
     replicate (14 * 17) 0
     @ row_of_bits (replicate (16 - (k - 16)) False @ replicate (k - 16) True)
     @ row_of_bits (replicate (16 - min k 16) False @ replicate (min k 16) True)"

definition sample_files :: "(path \<times> int list) list" where
  "sample_files =
     [(''slide_000001.png'', frame 0), (''slide_000002.png'', frame 12),
      (''slide_000003.png'', frame 20), (''slide_000004.png'', frame 4),
      (''slide_000005.png'', frame 0)]"

definition sample_pillow :: "int list pillow" where
  "sample_pillow =
     \<lparr>image_open = (\<lambda>p. case map_of sample_files p of
                            None \<Rightarrow> Inl PillowError | Some img \<Rightarrow> Inr img),
      gray_resample = (\<lambda>img size. Inr img)\<rparr>"

section \<open>Notions used in the statements\<close>

fun is_warning :: "log_record \<Rightarrow> bool" where
  "is_warning (Warning_skipping _ _) = True"
| "is_warning _ = False"

text \<open>
  The cutoff as the specification words it, \<^verbatim>\<open>round((1.0 - threshold) * S * S)\<close> with
  \<open>S = 16\<close>, on the exact value of the threshold; \<^verbatim>\<open>round\<close> is Python's, which rounds
  a tie to the even neighbour.
\<close>

definition spec_max_distance :: "rat \<Rightarrow> int" where
  "spec_max_distance threshold =
     round_half_even ((1 - threshold) * of_nat (HASH_SIZE * HASH_SIZE))"

text \<open>
  The Hamming distance of two numbers read as \<open>n\<close>-bit strings: the number of bit positions
  below \<open>n\<close> in which they differ.
\<close>

definition differing_bits :: "nat \<Rightarrow> int \<Rightarrow> int \<Rightarrow> nat" where
  "differing_bits n a b = length (filter (\<lambda>i. bit a i \<noteq> bit b i) [0..<n])"

text \<open>The number whose binary digits, most significant first, are the given bits.\<close>

definition msb_first :: "bool list \<Rightarrow> int" where
  "msb_first bs = foldl (\<lambda>acc b. 2 * acc + (if b then 1 else 0)) 0 bs"

text \<open>
  The 256 comparisons of \<^verbatim>\<open>_phash\<close> in the order of its two loops: row by row, and left to
  right within a row.
\<close>

definition cell_bits :: "int list \<Rightarrow> bool list" where
  "cell_bits pixels =
     map (\<lambda>(r, c). pixels ! (r * (HASH_SIZE + 1) + c) > pixels ! (r * (HASH_SIZE + 1) + c + 1))
       (List.product [0..<HASH_SIZE] [0..<HASH_SIZE])"

section \<open>Double-precision rounding\<close>

lemma bit_length_bounds:
  "0 < n \<Longrightarrow> 2 ^ (bit_length n - 1) \<le> n \<and> n < 2 ^ bit_length n"
proof (induction n rule: bit_length.induct)
  case (1 n)
  show ?case
  proof (cases "n div 2 = 0")
    case True
    with 1 have "n = 1" by presburger
    then show ?thesis by (simp add: bit_length.simps)
  next
    case False
    with 1 have IH: "2 ^ (bit_length (n div 2) - 1) \<le> n div 2" "n div 2 < 2 ^ bit_length (n div 2)"
      by auto
    from False have pos: "0 < bit_length (n div 2)"
      by (subst bit_length.simps) simp
    have eq: "bit_length n = Suc (bit_length (n div 2))"
      using 1 by (subst bit_length.simps) simp
    from pos obtain m where m: "bit_length (n div 2) = Suc m" by (cases "bit_length (n div 2)") auto
    from IH m have "2 * 2 ^ m \<le> n" "n < 2 * 2 ^ Suc m" by auto
    with eq m show ?thesis by simp
  qed
qed

lemma rhe_of_int: "round_half_even (of_int n) = n"
  by (simp add: round_half_even_def)

lemma rhe_le: "y \<le> of_int N \<Longrightarrow> round_half_even y \<le> N"
  unfolding round_half_even_def Let_def
  by (auto; linarith)

lemma rhe_ge: "of_int N \<le> y \<Longrightarrow> N \<le> round_half_even y"
  unfolding round_half_even_def Let_def
  by (auto; linarith)

lemma rhe_err: "\<bar>of_int (round_half_even y) - y\<bar> \<le> 1 / 2"
proof -
  have "of_int \<lfloor>y\<rfloor> \<le> y" "y < of_int \<lfloor>y\<rfloor> + 1" by linarith+
  then show ?thesis
    unfolding round_half_even_def Let_def by (auto simp: abs_le_iff)
qed

lemma floor_log2_bounds:
  assumes "0 < x"
  shows "2 powi floor_log2 x \<le> x" and "x < 2 powi (floor_log2 x + 1)"
proof -
  define a b where "a = fst (quotient_of x)" and "b = snd (quotient_of x)"
  define la lb where "la = bit_length (nat a)" and "lb = bit_length (nat b)"
  have b: "0 < b" by (simp add: b_def quotient_of_denom_pos')
  have x: "x = of_int a / of_int b"
    by (rule quotient_of_div) (simp add: a_def b_def)
  from assms x b have a: "0 < a" by (simp add: zero_less_divide_iff)
  from a have A: "(2::nat) ^ (la - 1) \<le> nat a" "nat a < 2 ^ la"
    using bit_length_bounds [of "nat a"] by (simp_all add: la_def)
  from b have B: "(2::nat) ^ (lb - 1) \<le> nat b" "nat b < 2 ^ lb"
    using bit_length_bounds [of "nat b"] by (simp_all add: lb_def)
  have la: "0 < la" using A a by (cases la) auto
  have lb: "0 < lb" using B b by (cases lb) auto
  have ra: "of_int a = (of_nat (nat a) :: rat)" using a by simp
  have rb: "of_int b = (of_nat (nat b) :: rat)" using b by simp
  have A': "(2::rat) ^ (la - 1) \<le> of_int a" "of_int a < (2::rat) ^ la"
    unfolding ra using A by (metis of_nat_le_iff of_nat_power of_nat_numeral, metis of_nat_less_iff of_nat_power of_nat_numeral)
  have B': "(2::rat) ^ (lb - 1) \<le> of_int b" "of_int b < (2::rat) ^ lb"
    unfolding rb using B by (metis of_nat_le_iff of_nat_power of_nat_numeral, metis of_nat_less_iff of_nat_power of_nat_numeral)
  have bpos: "(0::rat) < of_int b" using b by simp
  have lo: "2 powi (int la - int lb - 1) < x"
  proof -
    have e: "int la - int lb - 1 = int (la - 1) - int lb" using la by simp
    have "(2::rat) powi (int (la - 1) - int lb) = 2 ^ (la - 1) / 2 ^ lb"
      by (subst power_int_diff) (simp_all only: power_int_of_nat, simp)
    then have "(2::rat) powi (int la - int lb - 1) = 2 ^ (la - 1) / 2 ^ lb"
      unfolding e .
    also have "\<dots> < of_int a / of_int b"
      using A' B' bpos by (intro frac_less2) auto
    finally show ?thesis by (simp add: x)
  qed
  have hi: "x < 2 powi (int la - int lb + 1)"
  proof -
    have "of_int a / of_int b < (2::rat) ^ la / 2 ^ (lb - 1)"
      using A' B' bpos a by (intro frac_less) auto
    also have "\<dots> = 2 powi (int la - int lb + 1)"
    proof -
      have e: "int la - int lb + 1 = int la - int (lb - 1)" using lb by simp
      have "(2::rat) powi (int la - int (lb - 1)) = 2 ^ la / 2 ^ (lb - 1)"
        by (subst power_int_diff) (simp_all only: power_int_of_nat, simp)
      then show ?thesis unfolding e by simp
    qed
    finally show ?thesis by (simp add: x)
  qed
  have fl: "floor_log2 x = (if 2 powi (int la - int lb) \<le> x then int la - int lb else int la - int lb - 1)"
    by (simp add: floor_log2_def la_def lb_def a_def b_def Let_def)
  show "2 powi floor_log2 x \<le> x" using lo by (auto simp: fl)
  show "x < 2 powi (floor_log2 x + 1)" using hi by (auto simp: fl not_le)
qed

lemma floor_log2_less: "0 < x \<Longrightarrow> x < 2 powi k \<Longrightarrow> floor_log2 x < k"
proof (rule ccontr)
  assume x: "0 < x" "x < 2 powi k" and "\<not> floor_log2 x < k"
  then have "(2::rat) powi k \<le> 2 powi floor_log2 x"
    by (intro power_int_increasing) auto
  with floor_log2_bounds(1) [OF x(1)] x(2) show False by linarith
qed

lemma floor_log2_ge: "0 < x \<Longrightarrow> 2 powi k \<le> x \<Longrightarrow> k \<le> floor_log2 x"
proof (rule ccontr)
  assume x: "0 < x" "2 powi k \<le> x" and "\<not> k \<le> floor_log2 x"
  then have "(2::rat) powi (floor_log2 x + 1) \<le> 2 powi k"
    by (intro power_int_increasing) auto
  with floor_log2_bounds(2) [OF x(1)] x(2) show False by linarith
qed

lemma pow2_pos: "(0::rat) < 2 powi k"
  by (simp add: zero_less_power_int)

lemma pow2_le_D: "(2::rat) powi a \<le> 2 powi b \<Longrightarrow> a \<le> b"
proof (rule ccontr)
  assume le: "(2::rat) powi a \<le> 2 powi b" and "\<not> a \<le> b"
  then have "(2::rat) powi b < 2 powi a"
    by (intro power_int_strict_increasing) auto
  with le show False by simp
qed

lemma pow2_multiple: "u \<le> k \<Longrightarrow> (2::rat) powi k = of_int (2 ^ nat (k - u)) * 2 powi u"
proof -
  assume "u \<le> k"
  have "(2::rat) powi k = 2 powi ((k - u) + u)" by simp
  also have "\<dots> = 2 powi (k - u) * 2 powi u" by (rule power_int_add) simp
  also have "(2::rat) powi (k - u) = 2 ^ nat (k - u)"
    using \<open>u \<le> k\<close> by (simp add: power_int_nonneg_exp)
  finally show ?thesis by simp
qed

lemma ulp_exp_ge: "- 1074 \<le> ulp_exp x"
  by (simp add: ulp_exp_def)

lemma round_value_of_multiple:
  assumes "x = of_int m * 2 powi ulp_exp x"
  shows "round_value x = x"
proof (cases "x = 0")
  case True
  then show ?thesis by (simp add: round_value_def)
next
  case False
  have "x / 2 powi ulp_exp x = of_int m"
    using pow2_pos [of "ulp_exp x"] by (subst assms) simp
  then have "round_value x = of_int m * 2 powi ulp_exp x"
    using False by (simp add: round_value_def rhe_of_int)
  with assms show ?thesis by simp
qed

lemma round_value_grid:
  assumes "c = of_int N * 2 powi ulp_exp x"
  shows "x \<le> c \<Longrightarrow> round_value x \<le> c" and "c \<le> x \<Longrightarrow> c \<le> round_value x"
proof -
  let ?p = "(2::rat) powi ulp_exp x"
  have p: "0 < ?p" by (rule pow2_pos)
  {
    assume "x \<le> c"
    show "round_value x \<le> c"
    proof (cases "x = 0")
      case True
      with \<open>x \<le> c\<close> show ?thesis by (simp add: round_value_def)
    next
      case False
      from \<open>x \<le> c\<close> p have "x / ?p \<le> of_int N"
        by (simp add: assms pos_divide_le_eq)
      then have "round_half_even (x / ?p) \<le> N" by (rule rhe_le)
      then have "of_int (round_half_even (x / ?p)) * ?p \<le> of_int N * ?p"
        using p by simp
      with False show ?thesis by (simp add: round_value_def assms)
    qed
  }
  {
    assume "c \<le> x"
    show "c \<le> round_value x"
    proof (cases "x = 0")
      case True
      with \<open>c \<le> x\<close> show ?thesis by (simp add: round_value_def)
    next
      case False
      from \<open>c \<le> x\<close> p have "of_int N \<le> x / ?p"
        by (simp add: assms pos_le_divide_eq)
      then have "N \<le> round_half_even (x / ?p)" by (rule rhe_ge)
      then have "of_int N * ?p \<le> of_int (round_half_even (x / ?p)) * ?p"
        using p by simp
      with False show ?thesis by (simp add: round_value_def assms)
    qed
  }
qed

lemma round_value_err: "\<bar>round_value x - x\<bar> \<le> 2 powi ulp_exp x / 2"
proof (cases "x = 0")
  case True
  then show ?thesis using pow2_pos [of "ulp_exp 0"] by (simp add: round_value_def)
next
  case False
  let ?p = "(2::rat) powi ulp_exp x"
  have p: "0 < ?p" by (rule pow2_pos)
  have "round_value x - x = (of_int (round_half_even (x / ?p)) - x / ?p) * ?p"
    using False p by (simp add: round_value_def algebra_simps)
  then have "\<bar>round_value x - x\<bar> = \<bar>of_int (round_half_even (x / ?p)) - x / ?p\<bar> * ?p"
    using p by (simp add: abs_mult)
  also have "\<dots> \<le> 1 / 2 * ?p"
    using rhe_err [of "x / ?p"] p by (intro mult_right_mono) auto
  finally show ?thesis by simp
qed

lemma floor_log2_abs_bounds:
  assumes "x \<noteq> 0"
  shows "2 powi floor_log2 \<bar>x\<bar> \<le> \<bar>x\<bar>" and "\<bar>x\<bar> < 2 powi (floor_log2 \<bar>x\<bar> + 1)"
  using assms floor_log2_bounds [of "\<bar>x\<bar>"] by simp_all

lemma round_value_abs_le:
  assumes "\<bar>x\<bar> \<le> 2 powi k" and "- 1022 \<le> k"
  shows "\<bar>round_value x\<bar> \<le> 2 powi k"
proof (cases "x = 0")
  case True
  then show ?thesis using pow2_pos [of k] by (simp add: round_value_def)
next
  case False
  have "2 powi floor_log2 \<bar>x\<bar> \<le> (2::rat) powi k"
    using floor_log2_abs_bounds(1) [OF False] assms(1) by linarith
  then have "floor_log2 \<bar>x\<bar> \<le> k"
    by (rule pow2_le_D)
  with assms(2) have u: "ulp_exp x \<le> k" by (simp add: ulp_exp_def)
  have c: "(2::rat) powi k = of_int (2 ^ nat (k - ulp_exp x)) * 2 powi ulp_exp x"
    by (rule pow2_multiple [OF u])
  have c': "- ((2::rat) powi k) = of_int (- (2 ^ nat (k - ulp_exp x))) * 2 powi ulp_exp x"
    by (subst c) simp
  from assms(1) have "x \<le> 2 powi k" "- (2 powi k) \<le> x" by (simp_all add: abs_le_iff)
  then have "round_value x \<le> 2 powi k" "- (2 powi k) \<le> round_value x"
    using round_value_grid(1) [OF c] round_value_grid(2) [OF c'] by auto
  then show ?thesis by (simp add: abs_le_iff)
qed

lemma round_value_0: "round_value 0 = 0"
  by (simp add: round_value_def)

lemma round_value_repr:
  assumes "x \<noteq> 0"
  shows "\<exists>n. round_value x = of_int n * 2 powi ulp_exp x \<and> \<bar>n\<bar> \<le> 2 ^ 53"
proof -
  let ?p = "(2::rat) powi ulp_exp x"
  have p: "0 < ?p" by (rule pow2_pos)
  have "floor_log2 \<bar>x\<bar> + 1 \<le> ulp_exp x + 53" by (simp add: ulp_exp_def)
  then have "(2::rat) powi (floor_log2 \<bar>x\<bar> + 1) \<le> 2 powi (ulp_exp x + 53)"
    by (intro power_int_increasing) auto
  also have "\<dots> = of_int (2 ^ nat (ulp_exp x + 53 - ulp_exp x)) * ?p"
    by (rule pow2_multiple) simp
  also have "\<dots> = 2 ^ 53 * ?p" by simp
  finally have "\<bar>x\<bar> < 2 ^ 53 * ?p"
    using floor_log2_abs_bounds(2) [OF assms] by linarith
  then have "\<bar>x\<bar> / ?p < 2 ^ 53" using p by (simp add: pos_divide_less_eq)
  moreover have "\<bar>x / ?p\<bar> = \<bar>x\<bar> / ?p" using p by (simp add: abs_divide)
  ultimately have "\<bar>x / ?p\<bar> < 2 ^ 53" by simp
  then have b1: "x / ?p \<le> 2 ^ 53" and b2: "- (2 ^ 53) \<le> x / ?p" by linarith+
  have "round_half_even (x / ?p) \<le> 2 ^ 53" by (rule rhe_le) (use b1 in simp)
  moreover have "- (2 ^ 53) \<le> round_half_even (x / ?p)" by (rule rhe_ge) (use b2 in simp)
  ultimately have "\<bar>round_half_even (x / ?p)\<bar> \<le> 2 ^ 53" by (simp add: abs_le_iff)
  with assms show ?thesis by (auto simp: round_value_def)
qed

lemma round_value_exact:
  assumes n: "\<bar>n\<bar> \<le> 2 ^ 53" and k: "- 1074 \<le> k"
  shows "round_value (of_int n * 2 powi k) = of_int n * 2 powi k"
proof (cases "n = 0")
  case True
  then show ?thesis by (simp add: round_value_0)
next
  case False
  define x :: rat where "x = of_int n * 2 powi k"
  have pk: "(0::rat) < 2 powi k" by (rule pow2_pos)
  from False pk have x0: "x \<noteq> 0" by (simp add: x_def)
  have absx: "\<bar>x\<bar> = of_int \<bar>n\<bar> * 2 powi k"
    using pk by (simp add: x_def abs_mult)
  have "\<exists>m. x = of_int m * 2 powi ulp_exp x"
  proof (cases "\<bar>n\<bar> < 2 ^ 53")
    case True
    then have "(of_int \<bar>n\<bar> :: rat) < of_int (2 ^ 53)" by (simp only: of_int_less_iff)
    then have "\<bar>x\<bar> < 2 ^ 53 * 2 powi k" using pk by (simp add: absx)
    also have "2 ^ 53 * 2 powi k = (2::rat) powi (k + 53)"
      using pow2_multiple [of k "k + 53"] by simp
    finally have "floor_log2 \<bar>x\<bar> < k + 53"
      using x0 by (intro floor_log2_less) auto
    with k have u: "ulp_exp x \<le> k" by (simp add: ulp_exp_def)
    have m: "(2::rat) powi k = of_int (2 ^ nat (k - ulp_exp x)) * 2 powi ulp_exp x"
      by (rule pow2_multiple [OF u])
    have "x = of_int n * 2 powi k" by (fact x_def)
    also have "\<dots> = of_int (n * 2 ^ nat (k - ulp_exp x)) * 2 powi ulp_exp x"
      by (subst m) simp
    finally show ?thesis by blast
  next
    case False
    with n have n53: "\<bar>n\<bar> = 2 ^ 53" by simp
    have "\<bar>x\<bar> = 2 ^ 53 * 2 powi k" by (simp add: absx n53)
    also have "2 ^ 53 * 2 powi k = (2::rat) powi (k + 53)"
      using pow2_multiple [of k "k + 53"] by simp
    finally have ax: "\<bar>x\<bar> = 2 powi (k + 53)" .
    have "(2::rat) powi (k + 53) < 2 powi (k + 54)"
      by (intro power_int_strict_increasing) auto
    with ax have "floor_log2 \<bar>x\<bar> < k + 54"
      using x0 by (intro floor_log2_less) auto
    with k have u: "ulp_exp x \<le> k + 53" by (simp add: ulp_exp_def)
    have p: "(2::rat) powi (k + 53) = of_int (2 ^ nat (k + 53 - ulp_exp x)) * 2 powi ulp_exp x"
      by (rule pow2_multiple [OF u])
    show ?thesis
    proof (cases "0 \<le> x")
      case True
      with ax p have "x = of_int (2 ^ nat (k + 53 - ulp_exp x)) * 2 powi ulp_exp x" by simp
      then show ?thesis by blast
    next
      case False
      with ax have "x = - (2 powi (k + 53))" by simp
      with p have "x = of_int (- (2 ^ nat (k + 53 - ulp_exp x))) * 2 powi ulp_exp x" by simp
      then show ?thesis by blast
    qed
  qed
  then obtain m where "x = of_int m * 2 powi ulp_exp x" ..
  then have "round_value x = x" by (rule round_value_of_multiple)
  then show ?thesis by (simp add: x_def)
qed

lemma round_value_scale:
  "round_value (round_value x * 256) = round_value x * 256"
proof (cases "x = 0")
  case True
  then show ?thesis by (simp add: round_value_0)
next
  case False
  from round_value_repr [OF False] obtain n
    where r: "round_value x = of_int n * 2 powi ulp_exp x" and n: "\<bar>n\<bar> \<le> 2 ^ 53" by blast
  have "(2::rat) powi (ulp_exp x + 8) = of_int (2 ^ nat (ulp_exp x + 8 - ulp_exp x)) * 2 powi ulp_exp x"
    by (rule pow2_multiple) simp
  then have "round_value x * 256 = of_int n * 2 powi (ulp_exp x + 8)"
    by (simp add: r)
  moreover have "round_value (of_int n * 2 powi (ulp_exp x + 8)) = of_int n * 2 powi (ulp_exp x + 8)"
    using n ulp_exp_ge [of x] by (intro round_value_exact) auto
  ultimately show ?thesis by simp
qed

lemma round_value_abs_ge:
  assumes "2 powi k \<le> \<bar>x\<bar>" and "- 1022 \<le> k"
  shows "2 powi k \<le> \<bar>round_value x\<bar>"
proof -
  have x0: "x \<noteq> 0"
  proof
    assume "x = 0"
    with assms(1) have "(2::rat) powi k \<le> 0" by simp
    with pow2_pos [of k] show False by linarith
  qed
  define e where "e = floor_log2 \<bar>x\<bar>"
  have ke: "k \<le> e" unfolding e_def using x0 assms(1) by (intro floor_log2_ge) auto
  with assms(2) have u: "ulp_exp x = e - 52" by (simp add: ulp_exp_def e_def)
  have c: "(2::rat) powi e = of_int (2 ^ nat (e - ulp_exp x)) * 2 powi ulp_exp x"
    by (rule pow2_multiple) (simp add: u)
  have c': "- ((2::rat) powi e) = of_int (- (2 ^ nat (e - ulp_exp x))) * 2 powi ulp_exp x"
    by (subst c) simp
  have le: "(2::rat) powi k \<le> 2 powi e" using ke by (intro power_int_increasing) auto
  have ex: "2 powi e \<le> \<bar>x\<bar>" unfolding e_def by (rule floor_log2_abs_bounds(1) [OF x0])
  show ?thesis
  proof (cases "0 \<le> x")
    case True
    with ex have "2 powi e \<le> x" by simp
    then have "2 powi e \<le> round_value x" by (rule round_value_grid(2) [OF c])
    with le show ?thesis by linarith
  next
    case False
    with ex have "x \<le> - (2 powi e)" by simp
    then have "round_value x \<le> - (2 powi e)" by (rule round_value_grid(1) [OF c'])
    with le show ?thesis by linarith
  qed
qed

lemma round_value_nonneg: "0 \<le> x \<Longrightarrow> 0 \<le> round_value x"
  using round_value_grid(2) [of 0 0 x] by simp

lemma round_value_nonpos: "x \<le> 0 \<Longrightarrow> round_value x \<le> 0"
  using round_value_grid(1) [of 0 0 x] by simp

lemma round_double_Finite:
  "\<bar>round_value x\<bar> < 2 ^ 1024 \<Longrightarrow> round_double x = Finite (round_value x)"
  by (simp add: round_double_def Let_def)

lemma float_of_int_256: "float_of_int 256 = Finite 256"
proof -
  have "round_value (of_int 256 * 2 powi 0) = of_int 256 * 2 powi 0"
    by (rule round_value_exact) simp_all
  then have "round_value 256 = 256" by simp
  then show ?thesis by (simp add: float_of_int_def round_double_def)
qed

lemma max_dist_of_Finite:
  assumes "\<bar>1 - q\<bar> \<le> 2 powi 1000"
  shows "max_dist_of (Finite q) = py_int (Finite (round_value (1 - q) * 256))"
proof -
  let ?d = "round_value (1 - q)"
  have "\<bar>?d\<bar> \<le> 2 powi 1000" using assms by (rule round_value_abs_le) simp
  then have d: "\<bar>?d\<bar> \<le> 2 ^ 1000" by simp
  then have "\<bar>?d\<bar> < 2 ^ 1024" by (rule order_le_less_trans) simp
  then have sub: "round_double (1 - q) = Finite ?d"
    by (rule round_double_Finite)
  have "\<bar>?d * 256\<bar> = \<bar>?d\<bar> * 256" by (simp add: abs_mult)
  also have "\<dots> \<le> 2 ^ 1000 * 256" using d by simp
  also have "\<dots> < (2::rat) ^ 1024" by simp
  finally have "\<bar>round_value (?d * 256)\<bar> < 2 ^ 1024"
    by (simp only: round_value_scale)
  then have "round_double (?d * 256) = Finite (round_value (?d * 256))"
    by (rule round_double_Finite)
  then have mul: "round_double (?d * 256) = Finite (?d * 256)"
    by (simp only: round_value_scale)
  have h: "int (HASH_SIZE * HASH_SIZE) = 256" by (simp add: HASH_SIZE_def)
  show ?thesis
    by (simp only: max_dist_of_def float_sub.simps sub h float_of_int_256 float_mul.simps mul)
qed

lemma max_dist_of_exact:
  assumes "\<bar>n\<bar> \<le> 2 ^ 53" and "- 1074 \<le> k" and "1 - q = of_int n * 2 powi k"
    and "\<bar>1 - q\<bar> \<le> 2 powi 1000"
  shows "max_dist_of (Finite q) = py_int (Finite ((1 - q) * 256))"
proof -
  have "round_value (1 - q) = 1 - q"
    unfolding assms(3) using assms(1,2) by (rule round_value_exact)
  with max_dist_of_Finite [OF assms(4)] show ?thesis by simp
qed

lemma round_value_unit_interval:
  assumes "0 \<le> x" and "x \<le> 1"
  shows "0 \<le> round_value x" and "round_value x \<le> 1"
    and "\<bar>round_value x - x\<bar> \<le> 1 / 2 ^ 53"
proof -
  show "0 \<le> round_value x" using assms(1) by (rule round_value_nonneg)
  have "\<bar>round_value x\<bar> \<le> 2 powi 0"
    using assms by (intro round_value_abs_le) auto
  then show "round_value x \<le> 1" by simp
  show "\<bar>round_value x - x\<bar> \<le> 1 / 2 ^ 53"
  proof (cases "x = 0")
    case True
    then show ?thesis by (simp add: round_value_0)
  next
    case False
    with assms have "0 < \<bar>x\<bar>" "\<bar>x\<bar> < 2 powi 1" by auto
    then have "floor_log2 \<bar>x\<bar> < 1" by (rule floor_log2_less)
    then have "ulp_exp x \<le> - 52" by (simp add: ulp_exp_def)
    then have "(2::rat) powi ulp_exp x \<le> 2 powi (- 52)"
      by (intro power_int_increasing) auto
    then have "(2::rat) powi ulp_exp x / 2 \<le> 1 / 2 ^ 53"
      by (simp add: power_int_minus field_simps)
    with round_value_err [of x] show ?thesis by linarith
  qed
qed

lemma max_dist_of_unit_interval:
  assumes "0 \<le> q" and "q \<le> 1"
  shows "max_dist_of (Finite q) = Inr \<lfloor>round_value (1 - q) * 256\<rfloor>"
    and "0 \<le> \<lfloor>round_value (1 - q) * 256\<rfloor>" and "\<lfloor>round_value (1 - q) * 256\<rfloor> \<le> 256"
proof -
  from assms have x: "0 \<le> 1 - q" "1 - q \<le> 1" by simp_all
  note r = round_value_unit_interval [OF x]
  from x have "\<bar>1 - q\<bar> \<le> 2 powi 1000" by simp
  from max_dist_of_Finite [OF this] r(1)
  show "max_dist_of (Finite q) = Inr \<lfloor>round_value (1 - q) * 256\<rfloor>" by simp
  from r(1) show "0 \<le> \<lfloor>round_value (1 - q) * 256\<rfloor>" by simp
  from r(2) have "round_value (1 - q) * 256 \<le> 256" by simp
  then show "\<lfloor>round_value (1 - q) * 256\<rfloor> \<le> 256" by (simp add: floor_le_iff)
qed


section \<open>The fingerprint and the distance\<close>

lemma shift_or_bit: "push_bit 1 b OR (if c then 1 else 0) = 2 * b + (if c then 1 else (0::int))"
  by (simp add: or_one_eq)

lemma phash_cols_eq:
  "\<forall>c \<in> set cols. row * (HASH_SIZE + 1) + c + 1 < length pixels \<Longrightarrow>
   phash_cols pixels row cols bits =
     Inr (foldl (\<lambda>acc c. 2 * acc + (if pixels ! (row * (HASH_SIZE + 1) + c)
                                        > pixels ! (row * (HASH_SIZE + 1) + c + 1) then 1 else 0))
            bits cols)"
proof (induction cols arbitrary: bits)
  case Nil
  show ?case by simp
next
  case (Cons c cols)
  let ?f = "\<lambda>acc c. 2 * acc + (if pixels ! (row * (HASH_SIZE + 1) + c)
      > pixels ! (row * (HASH_SIZE + 1) + c + 1) then 1 else (0::int))"
  from Cons.prems have lt: "row * (HASH_SIZE + 1) + c + 1 < length pixels"
    and rest: "\<forall>c \<in> set cols. row * (HASH_SIZE + 1) + c + 1 < length pixels" by simp_all
  have "phash_cols pixels row (c # cols) bits = phash_cols pixels row cols (?f bits c)"
    by (simp only: phash_cols.simps Let_def shift_or_bit lt if_True)
  also have "\<dots> = Inr (foldl ?f (?f bits c) cols)" by (rule Cons.IH [OF rest])
  finally show ?case by (simp only: foldl_Cons)
qed

lemma phash_rows_eq:
  "\<forall>r \<in> set rows. r * (HASH_SIZE + 1) + HASH_SIZE < length pixels \<Longrightarrow>
   phash_rows pixels rows bits =
     Inr (foldl (\<lambda>acc r. foldl (\<lambda>acc c. 2 * acc + (if pixels ! (r * (HASH_SIZE + 1) + c)
                                        > pixels ! (r * (HASH_SIZE + 1) + c + 1) then 1 else 0))
                  acc [0..<HASH_SIZE]) bits rows)"
proof (induction rows arbitrary: bits)
  case Nil
  show ?case by simp
next
  case (Cons r rows)
  then have "\<forall>c \<in> set [0..<HASH_SIZE]. r * (HASH_SIZE + 1) + c + 1 < length pixels" by auto
  from phash_cols_eq [OF this] Cons show ?case by simp
qed

lemma foldl_product:
  "foldl f a (List.product xs ys) = foldl (\<lambda>acc x. foldl (\<lambda>acc y. f acc (x, y)) acc ys) a xs"
  by (induction xs arbitrary: a) (simp_all add: foldl_map)

lemma msb_first_snoc: "msb_first (bs @ [b]) = 2 * msb_first bs + (if b then 1 else 0)"
  by (simp add: msb_first_def)

lemma msb_first_bounds: "0 \<le> msb_first bs \<and> msb_first bs < 2 ^ length bs"
  by (induction bs rule: rev_induct) (auto simp: msb_first_snoc msb_first_def)

lemma msb_first_bit: "i < length bs \<Longrightarrow> bit (msb_first bs) (length bs - 1 - i) = bs ! i"
proof (induction bs rule: rev_induct)
  case Nil
  then show ?case by simp
next
  case (snoc b bs)
  show ?case
  proof (cases "i = length bs")
    case True
    then show ?thesis by (simp add: msb_first_snoc bit_0)
  next
    case False
    with snoc.prems have i: "i < length bs" by simp
    then have "length (bs @ [b]) - 1 - i = Suc (length bs - 1 - i)" by simp
    moreover have "(2 * msb_first bs + (if b then 1 else 0)) div 2 = msb_first bs" by simp
    ultimately show ?thesis
      using snoc.IH [OF i] i by (simp add: msb_first_snoc bit_Suc nth_append)
  qed
qed

lemma phash_rows_msb_first:
  assumes "(HASH_SIZE + 1) * HASH_SIZE \<le> length pixels"
  shows "phash_rows pixels [0..<HASH_SIZE] 0 = Inr (msb_first (cell_bits pixels))"
proof -
  have "\<forall>r \<in> set [0..<HASH_SIZE]. r * (HASH_SIZE + 1) + HASH_SIZE < length pixels"
    using assms by (auto simp: HASH_SIZE_def)
  from phash_rows_eq [OF this, of 0] show ?thesis
    by (simp add: msb_first_def cell_bits_def foldl_map foldl_product case_prod_unfold)
qed

lemma phash_cols_bounds:
  "phash_cols pixels row cols bits = Inr b \<Longrightarrow> 0 \<le> bits \<Longrightarrow> bits < 2 ^ n \<Longrightarrow>
   0 \<le> b \<and> b < 2 ^ (n + length cols)"
proof (induction cols arbitrary: bits n)
  case Nil
  then show ?case by simp
next
  case (Cons c cols)
  let ?bits = "push_bit 1 bits OR (if pixels ! (row * (HASH_SIZE + 1) + c)
      > pixels ! (row * (HASH_SIZE + 1) + c + 1) then 1 else 0)"
  from Cons.prems(1) have run: "phash_cols pixels row cols ?bits = Inr b"
    by (simp add: Let_def split: if_splits)
  have "?bits = 2 * bits + (if pixels ! (row * (HASH_SIZE + 1) + c)
      > pixels ! (row * (HASH_SIZE + 1) + c + 1) then 1 else 0)" by (rule shift_or_bit)
  then have "0 \<le> ?bits" "?bits < 2 ^ Suc n"
    using Cons.prems(2,3) by (simp_all only: power_Suc split: if_splits) linarith+
  from Cons.IH [OF run this] show ?case by simp
qed

lemma phash_rows_bounds:
  "phash_rows pixels rows bits = Inr b \<Longrightarrow> 0 \<le> bits \<Longrightarrow> bits < 2 ^ n \<Longrightarrow>
   0 \<le> b \<and> b < 2 ^ (n + HASH_SIZE * length rows)"
proof (induction rows arbitrary: bits n)
  case Nil
  then show ?case by simp
next
  case (Cons r rows)
  from Cons.prems(1) obtain bits' where c: "phash_cols pixels r [0..<HASH_SIZE] bits = Inr bits'"
    and r: "phash_rows pixels rows bits' = Inr b"
    by (auto split: sum.splits)
  from phash_cols_bounds [OF c Cons.prems(2,3)]
  have "0 \<le> bits'" "bits' < 2 ^ (n + HASH_SIZE)" by simp_all
  from Cons.IH [OF r this] show ?case by (simp add: algebra_simps)
qed

lemma fingerprint_bounds:
  assumes "fingerprint P p = Inr h"
  shows "0 \<le> h" and "h < 2 ^ 256"
proof -
  from assms obtain pixels where "phash_rows pixels [0..<HASH_SIZE] 0 = Inr h"
    by (auto simp: fingerprint_def phash_def split: sum.splits)
  from phash_rows_bounds [OF this, of 0] show "0 \<le> h" and "h < 2 ^ 256"
    by (simp_all add: HASH_SIZE_def)
qed

lemma bin_digits_ones: "m < 2 ^ n \<Longrightarrow> count_list (bin_digits m) CHR ''1'' \<le> n"
proof (induction m arbitrary: n rule: bin_digits.induct)
  case (1 m)
  show ?case
  proof (cases "m < 2")
    case True
    then have d: "bin_digits m = [if m = 0 then CHR ''0'' else CHR ''1'']"
      by (subst bin_digits.simps) simp
    show ?thesis
    proof (cases "m = 0")
      case True
      with d show ?thesis by simp
    next
      case False
      with "1.prems" have "n \<noteq> 0" by (cases n) auto
      with d False show ?thesis by simp
    qed
  next
    case False
    with "1.prems" obtain k where n: "n = Suc k" by (cases n) auto
    with "1.prems" have "m div 2 < 2 ^ k" by auto
    from "1.IH" [OF False this] False show ?thesis
      by (simp add: bin_digits.simps [of m] n)
  qed
qed

lemma hamming_le:
  assumes "0 \<le> a" "a < 2 ^ n" "0 \<le> b" "b < 2 ^ n"
  shows "hamming a b \<le> n"
proof -
  have x: "0 \<le> a XOR b" "a XOR b < 2 ^ n" using assms by (simp_all add: XOR_upper)
  then have "nat \<bar>a XOR b\<bar> < 2 ^ n" by (simp add: nat_less_iff)
  from bin_digits_ones [OF this] x(1) show ?thesis by (simp add: hamming_def bin_def)
qed

lemma hamming_self: "hamming a a = 0"
  by (simp add: hamming_def bin_def bin_digits.simps)

lemma cell_bits_length: "length (cell_bits pixels) = HASH_SIZE * HASH_SIZE"
  by (simp add: cell_bits_def)

lemma cell_bits_nth:
  assumes "r < HASH_SIZE" and "c < HASH_SIZE"
  shows "cell_bits pixels ! (r * HASH_SIZE + c) \<longleftrightarrow>
         pixels ! (r * (HASH_SIZE + 1) + c) > pixels ! (r * (HASH_SIZE + 1) + c + 1)"
proof -
  have lt: "r * HASH_SIZE + c < length [0..<HASH_SIZE] * length [0..<HASH_SIZE]"
  proof -
    have "r * HASH_SIZE + c < r * HASH_SIZE + HASH_SIZE" using assms(2) by simp
    also have "\<dots> = Suc r * HASH_SIZE" by simp
    also have "\<dots> \<le> HASH_SIZE * HASH_SIZE" using assms(1) by (intro mult_right_mono) auto
    finally show ?thesis by simp
  qed
  have "List.product [0..<HASH_SIZE] [0..<HASH_SIZE] ! (r * HASH_SIZE + c) = (r, c)"
    using assms by (simp add: product_nth [OF lt])
  moreover have "r * HASH_SIZE + c < length (List.product [0..<HASH_SIZE] [0..<HASH_SIZE])"
    using lt by simp
  ultimately show ?thesis by (simp add: cell_bits_def)
qed

section \<open>The loop\<close>

lemma dedup_loop_append:
  "dedup_loop P md (xs @ ys) s = dedup_loop P md ys (dedup_loop P md xs s)"
  by (induction xs arbitrary: s) (auto split: sum.splits)

lemma dedup_loop_kept_subseq:
  "\<exists>ys. kept (dedup_loop P md paths s) = kept s @ ys \<and> subseq ys paths"
proof (induction paths arbitrary: s)
  case Nil
  show ?case by simp
next
  case (Cons p ps)
  show ?case
  proof (cases "fingerprint P p")
    case (Inl exc)
    from Cons [of "s\<lparr>logged := logged s @ [Warning_skipping p exc]\<rparr>"]
    obtain ys where "kept (dedup_loop P md ps (s\<lparr>logged := logged s @ [Warning_skipping p exc]\<rparr>)) = kept s @ ys"
      and "subseq ys ps" by auto
    with Inl show ?thesis by (auto intro: subseq_Cons')
  next
    case (Inr h)
    show ?thesis
    proof (cases "kept_hashes s = [] \<or> int (hamming h (last (kept_hashes s))) > md")
      case True
      from Cons [of "s\<lparr>kept := kept s @ [p], kept_hashes := kept_hashes s @ [h]\<rparr>"]
      obtain ys where "kept (dedup_loop P md ps (s\<lparr>kept := kept s @ [p], kept_hashes := kept_hashes s @ [h]\<rparr>)) = kept s @ p # ys"
        and "subseq ys ps" by auto
      with Inr True show ?thesis by auto
    next
      case False
      from Cons [of s] obtain ys where "kept (dedup_loop P md ps s) = kept s @ ys" and "subseq ys ps"
        by auto
      with Inr False show ?thesis by (auto intro: subseq_Cons')
    qed
  qed
qed

lemma dedup_loop_hashes:
  "length (kept_hashes s) = length (kept s) \<Longrightarrow>
   \<forall>i < length (kept s). fingerprint P (kept s ! i) = Inr (kept_hashes s ! i) \<Longrightarrow>
   length (kept_hashes (dedup_loop P md paths s)) = length (kept (dedup_loop P md paths s)) \<and>
   (\<forall>i < length (kept (dedup_loop P md paths s)).
      fingerprint P (kept (dedup_loop P md paths s) ! i) = Inr (kept_hashes (dedup_loop P md paths s) ! i))"
proof (induction paths arbitrary: s)
  case Nil
  then show ?case by simp
next
  case (Cons p ps)
  show ?case
  proof (cases "fingerprint P p")
    case (Inl exc)
    with Cons.IH [of "s\<lparr>logged := logged s @ [Warning_skipping p exc]\<rparr>"] Cons.prems
    show ?thesis by simp
  next
    case (Inr h)
    have ext: "length (kept_hashes s @ [h]) = length (kept s @ [p]) \<and>
      (\<forall>i < length (kept s @ [p]). fingerprint P ((kept s @ [p]) ! i) = Inr ((kept_hashes s @ [h]) ! i))"
      using Cons.prems Inr by (auto simp: nth_append)
    show ?thesis
    proof (cases "kept_hashes s = [] \<or> int (hamming h (last (kept_hashes s))) > md")
      case True
      with Inr Cons.IH [of "s\<lparr>kept := kept s @ [p], kept_hashes := kept_hashes s @ [h]\<rparr>"] ext
      show ?thesis by simp
    next
      case False
      with Inr Cons.IH [of s] Cons.prems show ?thesis by simp
    qed
  qed
qed

lemma deduplicate_run_Inr:
  "max_dist_of t = Inr md \<Longrightarrow>
   deduplicate_run P paths t =
     Inr ((dedup_loop P md paths \<lparr>kept = [], kept_hashes = [], logged = [Info_frames_in (length paths) md t]\<rparr>)
           \<lparr>logged := logged (dedup_loop P md paths \<lparr>kept = [], kept_hashes = [], logged = [Info_frames_in (length paths) md t]\<rparr>)
                      @ [Info_kept (length (kept (dedup_loop P md paths \<lparr>kept = [], kept_hashes = [], logged = [Info_frames_in (length paths) md t]\<rparr>)))]\<rparr>)"
  by (simp add: deduplicate_run_def Let_def)

lemma deduplicate_Inr:
  "max_dist_of t = Inr md \<Longrightarrow>
   deduplicate P paths t =
     Inr (kept (dedup_loop P md paths
                  \<lparr>kept = [], kept_hashes = [], logged = [Info_frames_in (length paths) md t]\<rparr>))"
  by (simp add: deduplicate_def deduplicate_run_Inr)

lemma deduplicate_Inl: "max_dist_of t = Inl e \<Longrightarrow> deduplicate P paths t = Inl e"
  by (simp add: deduplicate_def deduplicate_run_def)

text \<open>The log never influences what is kept.\<close>

lemma dedup_loop_logged_irrelevant:
  "kept s = kept s' \<Longrightarrow> kept_hashes s = kept_hashes s' \<Longrightarrow>
   kept (dedup_loop P md paths s) = kept (dedup_loop P md paths s') \<and>
   kept_hashes (dedup_loop P md paths s) = kept_hashes (dedup_loop P md paths s')"
proof (induction paths arbitrary: s s')
  case Nil
  then show ?case by simp
next
  case (Cons p ps)
  show ?case
  proof (cases "fingerprint P p")
    case (Inl exc)
    with Cons.IH [of "s\<lparr>logged := logged s @ [Warning_skipping p exc]\<rparr>"
                     "s'\<lparr>logged := logged s' @ [Warning_skipping p exc]\<rparr>"] Cons.prems
    show ?thesis by simp
  next
    case (Inr h)
    show ?thesis
    proof (cases "kept_hashes s = [] \<or> int (hamming h (last (kept_hashes s))) > md")
      case True
      with Inr Cons.prems
        Cons.IH [of "s\<lparr>kept := kept s @ [p], kept_hashes := kept_hashes s @ [h]\<rparr>"
                    "s'\<lparr>kept := kept s' @ [p], kept_hashes := kept_hashes s' @ [h]\<rparr>"]
      show ?thesis by simp
    next
      case False
      with Inr Cons.prems Cons.IH [of s s'] show ?thesis by simp
    qed
  qed
qed

lemma subseq_count_list: "subseq xs ys \<Longrightarrow> count_list xs a \<le> count_list ys a"
  by (induction rule: list_emb.induct) auto

lemma dedup_loop_start_hashes:
  assumes "s = dedup_loop P md pre \<lparr>kept = [], kept_hashes = [], logged = lg\<rparr>"
  shows "length (kept_hashes s) = length (kept s)"
    and "map (fingerprint P) (kept s) = map Inr (kept_hashes s)"
proof -
  have "length (kept_hashes s) = length (kept s) \<and>
        (\<forall>i < length (kept s). fingerprint P (kept s ! i) = Inr (kept_hashes s ! i))"
    unfolding assms by (rule dedup_loop_hashes) simp_all
  then show "length (kept_hashes s) = length (kept s)"
    and "map (fingerprint P) (kept s) = map Inr (kept_hashes s)"
    by (auto intro: nth_equalityI)
qed

lemma dedup_loop_start_last:
  assumes "s = dedup_loop P md pre \<lparr>kept = [], kept_hashes = [], logged = lg\<rparr>"
    and "kept s \<noteq> []"
  shows "fingerprint P (last (kept s)) = Inr (last (kept_hashes s))"
proof -
  from dedup_loop_start_hashes [OF assms(1)]
  have l: "length (kept_hashes s) = length (kept s)"
    and m: "map (fingerprint P) (kept s) = map Inr (kept_hashes s)" by auto
  from assms(2) l have ne: "kept_hashes s \<noteq> []" by auto
  have "fingerprint P (last (kept s)) = last (map (fingerprint P) (kept s))"
    using assms(2) by (simp add: last_map)
  also have "\<dots> = Inr (last (kept_hashes s))"
    using ne by (simp add: m last_map)
  finally show ?thesis .
qed

lemma dedup_loop_snoc:
  assumes "fingerprint P p = Inr h"
  shows "dedup_loop P md (pre @ [p]) s0 =
     (let s = dedup_loop P md pre s0
      in if kept_hashes s = [] \<or> md < int (hamming h (last (kept_hashes s)))
         then s\<lparr>kept := kept s @ [p], kept_hashes := kept_hashes s @ [h]\<rparr> else s)"
  by (simp add: dedup_loop_append assms Let_def)

lemma dedup_loop_snoc_fail:
  assumes "fingerprint P p = Inl e"
  shows "dedup_loop P md (pre @ [p]) s0 =
     (dedup_loop P md pre s0)\<lparr>logged := logged (dedup_loop P md pre s0) @ [Warning_skipping p e]\<rparr>"
  by (simp add: dedup_loop_append assms)

lemma dedup_loop_filter:
  "kept s = kept s' \<Longrightarrow> kept_hashes s = kept_hashes s' \<Longrightarrow>
   kept (dedup_loop P md (filter (\<lambda>p. \<not> isl (fingerprint P p)) paths) s) =
   kept (dedup_loop P md paths s')"
proof (induction paths arbitrary: s s')
  case Nil
  then show ?case by simp
next
  case (Cons p ps)
  show ?case
  proof (cases "fingerprint P p")
    case (Inl exc)
    with Cons.IH [of s "s'\<lparr>logged := logged s' @ [Warning_skipping p exc]\<rparr>"] Cons.prems
    show ?thesis by simp
  next
    case (Inr h)
    show ?thesis
    proof (cases "kept_hashes s = [] \<or> int (hamming h (last (kept_hashes s))) > md")
      case True
      with Inr Cons.prems
        Cons.IH [of "s\<lparr>kept := kept s @ [p], kept_hashes := kept_hashes s @ [h]\<rparr>"
                    "s'\<lparr>kept := kept s' @ [p], kept_hashes := kept_hashes s' @ [h]\<rparr>"]
      show ?thesis by simp
    next
      case False
      with Inr Cons.prems Cons.IH [of s s'] show ?thesis by simp
    qed
  qed
qed

lemma dedup_loop_kept_readable:
  "set (kept (dedup_loop P md paths s)) \<subseteq>
   set (kept s) \<union> {p \<in> set paths. \<not> isl (fingerprint P p)}"
proof (induction paths arbitrary: s)
  case Nil
  show ?case by simp
next
  case (Cons p ps)
  show ?case
  proof (cases "fingerprint P p")
    case (Inl exc)
    with Cons [of "s\<lparr>logged := logged s @ [Warning_skipping p exc]\<rparr>"]
    show ?thesis by auto
  next
    case (Inr h)
    show ?thesis
    proof (cases "kept_hashes s = [] \<or> int (hamming h (last (kept_hashes s))) > md")
      case True
      with Inr Cons [of "s\<lparr>kept := kept s @ [p], kept_hashes := kept_hashes s @ [h]\<rparr>"]
      show ?thesis by auto
    next
      case False
      with Inr Cons [of s] show ?thesis by auto
    qed
  qed
qed

lemma dedup_loop_warnings:
  "length (filter is_warning (logged (dedup_loop P md paths s))) =
   length (filter is_warning (logged s)) + length (filter (\<lambda>p. isl (fingerprint P p)) paths)"
proof (induction paths arbitrary: s)
  case Nil
  show ?case by simp
next
  case (Cons p ps)
  show ?case
  proof (cases "fingerprint P p")
    case (Inl exc)
    with Cons [of "s\<lparr>logged := logged s @ [Warning_skipping p exc]\<rparr>"]
    show ?thesis by simp
  next
    case (Inr h)
    show ?thesis
    proof (cases "kept_hashes s = [] \<or> int (hamming h (last (kept_hashes s))) > md")
      case True
      with Inr Cons [of "s\<lparr>kept := kept s @ [p], kept_hashes := kept_hashes s @ [h]\<rparr>"]
      show ?thesis by simp
    next
      case False
      with Inr Cons [of s] show ?thesis by simp
    qed
  qed
qed

lemma dedup_loop_same:
  assumes "\<forall>x \<in> set xs. fingerprint P x = Inr h" and "kept_hashes s \<noteq> []"
    and "last (kept_hashes s) = h" and "0 \<le> md"
  shows "dedup_loop P md xs s = s"
  using assms by (induction xs) (simp_all add: hamming_self)

lemma dedup_loop_negative:
  "md < 0 \<Longrightarrow>
   kept (dedup_loop P md paths s) = kept s @ filter (\<lambda>p. \<not> isl (fingerprint P p)) paths"
proof (induction paths arbitrary: s)
  case Nil
  show ?case by simp
next
  case (Cons p ps)
  show ?case
  proof (cases "fingerprint P p")
    case (Inl exc)
    with Cons.IH [OF Cons.prems, of "s\<lparr>logged := logged s @ [Warning_skipping p exc]\<rparr>"]
    show ?thesis by simp
  next
    case (Inr h)
    from Cons.prems have "md < int (hamming h (last (kept_hashes s)))" by simp
    with Inr Cons.IH [OF Cons.prems, of "s\<lparr>kept := kept s @ [p], kept_hashes := kept_hashes s @ [h]\<rparr>"]
    show ?thesis by simp
  qed
qed

lemma dedup_loop_saturated:
  assumes "256 \<le> md" and "kept_hashes s \<noteq> []"
    and "0 \<le> last (kept_hashes s)" and "last (kept_hashes s) < 2 ^ 256"
  shows "kept (dedup_loop P md paths s) = kept s"
  using assms(2-)
proof (induction paths arbitrary: s)
  case Nil
  show ?case by simp
next
  case (Cons p ps)
  show ?case
  proof (cases "fingerprint P p")
    case (Inl exc)
    with Cons.IH [of "s\<lparr>logged := logged s @ [Warning_skipping p exc]\<rparr>"] Cons.prems
    show ?thesis by simp
  next
    case (Inr h)
    from fingerprint_bounds [OF Inr] Cons.prems
    have "hamming h (last (kept_hashes s)) \<le> 256" by (intro hamming_le) simp_all
    with assms(1) have "\<not> md < int (hamming h (last (kept_hashes s)))" by simp
    with Inr Cons.IH [of s] Cons.prems show ?thesis by simp
  qed
qed

lemma dedup_loop_saturated_start:
  assumes "256 \<le> md"
  shows "kept (dedup_loop P md paths \<lparr>kept = [], kept_hashes = [], logged = lg\<rparr>) =
         take 1 (filter (\<lambda>p. \<not> isl (fingerprint P p)) paths)"
proof (induction paths arbitrary: lg)
  case Nil
  show ?case by simp
next
  case (Cons p ps)
  show ?case
  proof (cases "fingerprint P p")
    case (Inl exc)
    with Cons [of "lg @ [Warning_skipping p exc]"] show ?thesis by simp
  next
    case (Inr h)
    from fingerprint_bounds [OF Inr]
    have "kept (dedup_loop P md ps \<lparr>kept = [p], kept_hashes = [h], logged = lg\<rparr>) = [p]"
      using dedup_loop_saturated [OF assms, of "\<lparr>kept = [p], kept_hashes = [h], logged = lg\<rparr>" P ps]
      by simp
    with Inr show ?thesis by simp
  qed
qed

lemma max_dist_of_above_one:
  assumes "1 < q" and "q \<le> 2 ^ 1000"
  shows "\<exists>md. max_dist_of (Finite q) = Inr md \<and> md \<le> 0 \<and> (1 + 1 / 256 \<le> q \<longrightarrow> md < 0)"
proof -
  let ?d = "round_value (1 - q)"
  from assms have "\<bar>1 - q\<bar> \<le> 2 powi 1000" by simp
  from max_dist_of_Finite [OF this]
  have md: "max_dist_of (Finite q) = Inr (if 0 \<le> ?d * 256 then \<lfloor>?d * 256\<rfloor> else \<lceil>?d * 256\<rceil>)"
    by simp
  from assms(1) have d: "?d \<le> 0" by (intro round_value_nonpos) simp
  then have le: "(if 0 \<le> ?d * 256 then \<lfloor>?d * 256\<rfloor> else \<lceil>?d * 256\<rceil>) \<le> 0"
    by (auto simp: ceiling_le_iff floor_le_iff) (linarith+)?
  have lt: "(if 0 \<le> ?d * 256 then \<lfloor>?d * 256\<rfloor> else \<lceil>?d * 256\<rceil>) < 0" if "1 + 1 / 256 \<le> q"
  proof -
    from that have "2 powi (- 8) \<le> \<bar>1 - q\<bar>" by (simp add: power_int_minus)
    then have "2 powi (- 8) \<le> \<bar>?d\<bar>" by (rule round_value_abs_ge) simp
    with d have "?d \<le> - (1 / 256)" by (simp add: power_int_minus)
    then have "?d * 256 \<le> - 1" by simp
    then have n: "\<not> 0 \<le> ?d * 256" and c: "\<lceil>?d * 256\<rceil> \<le> - 1"
      by (simp_all add: ceiling_le_iff)
    from n have "(if 0 \<le> ?d * 256 then \<lfloor>?d * 256\<rfloor> else \<lceil>?d * 256\<rceil>) = \<lceil>?d * 256\<rceil>"
      by (simp only: if_False)
    with c show ?thesis by linarith
  qed
  from md le lt show ?thesis by blast
qed

lemma max_dist_of_below_zero:
  assumes "q < 0" and "- (2 ^ 1000) \<le> q"
  shows "\<exists>md. max_dist_of (Finite q) = Inr md \<and> 256 \<le> md"
proof -
  let ?d = "round_value (1 - q)"
  from assms have "\<bar>1 - q\<bar> \<le> 2 ^ 1000 + 1" by simp
  also have "\<dots> \<le> (2::rat) ^ 1001" by simp
  finally have a: "\<bar>1 - q\<bar> \<le> 2 powi 1001" by simp
  have "\<bar>?d\<bar> \<le> 2 powi 1001" using a by (rule round_value_abs_le) simp
  then have dabs: "\<bar>?d\<bar> \<le> 2 ^ 1001" by simp
  then have "\<bar>?d\<bar> < 2 ^ 1024" by (rule order_le_less_trans) simp
  then have sub: "round_double (1 - q) = Finite ?d" by (rule round_double_Finite)
  have "\<bar>?d * 256\<bar> = \<bar>?d\<bar> * 256" by (simp add: abs_mult)
  also have "\<dots> \<le> 2 ^ 1001 * 256" using dabs by simp
  also have "\<dots> < (2::rat) ^ 1024" by simp
  finally have "\<bar>round_value (?d * 256)\<bar> < 2 ^ 1024" by (simp only: round_value_scale)
  then have "round_double (?d * 256) = Finite (round_value (?d * 256))"
    by (rule round_double_Finite)
  then have mul: "round_double (?d * 256) = Finite (?d * 256)" by (simp only: round_value_scale)
  have h: "int (HASH_SIZE * HASH_SIZE) = 256" by (simp add: HASH_SIZE_def)
  have md: "max_dist_of (Finite q) = py_int (Finite (?d * 256))"
    by (simp only: max_dist_of_def float_sub.simps sub h float_of_int_256 float_mul.simps mul)
  from assms(1) have "2 powi 0 \<le> \<bar>1 - q\<bar>" by simp
  then have "2 powi 0 \<le> \<bar>?d\<bar>" by (rule round_value_abs_ge) simp
  moreover from assms(1) have "0 \<le> ?d" by (intro round_value_nonneg) simp
  ultimately have "1 \<le> ?d" by simp
  then have "256 \<le> ?d * 256" by simp
  then have "0 \<le> ?d * 256" "256 \<le> \<lfloor>?d * 256\<rfloor>" by (simp_all add: le_floor_iff)
  with md show ?thesis by simp
qed

lemma bin_digits_has_one: "0 < m \<Longrightarrow> 0 < count_list (bin_digits m) CHR ''1''"
proof (induction m rule: bin_digits.induct)
  case (1 m)
  show ?case
  proof (cases "m < 2")
    case True
    with "1.prems" have "m = 1" by simp
    then show ?thesis by (simp add: bin_digits.simps)
  next
    case False
    then have "0 < m div 2" by simp
    from "1.IH" [OF False this] False show ?thesis
      by (simp add: bin_digits.simps [of m])
  qed
qed

lemma hamming_eq_0: "hamming a b = 0 \<Longrightarrow> a = b"
proof (rule ccontr)
  assume h: "hamming a b = 0" and "a \<noteq> b"
  have "a XOR b \<noteq> 0"
  proof
    assume z: "a XOR b = 0"
    have "a = (a XOR b) XOR b" by (simp add: xor.assoc)
    with z have "a = b" by simp
    with \<open>a \<noteq> b\<close> show False by simp
  qed
  then have "0 < nat \<bar>a XOR b\<bar>" by simp
  from bin_digits_has_one [OF this] h show False
    by (simp add: hamming_def bin_def split: if_splits)
qed


lemma dedup_loop_first_readable:
  "filter (\<lambda>p. \<not> isl (fingerprint P p)) paths \<noteq> [] \<Longrightarrow>
   kept (dedup_loop P md paths \<lparr>kept = [], kept_hashes = [], logged = lg\<rparr>) \<noteq> []"
proof (induction paths arbitrary: lg)
  case Nil
  then show ?case by simp
next
  case (Cons p ps)
  show ?case
  proof (cases "fingerprint P p")
    case (Inl exc)
    with Cons.prems have "filter (\<lambda>p. \<not> isl (fingerprint P p)) ps \<noteq> []" by simp
    from Cons.IH [OF this, of "lg @ [Warning_skipping p exc]"] Inl show ?thesis by simp
  next
    case (Inr h)
    from dedup_loop_kept_subseq [of P md ps "\<lparr>kept = [p], kept_hashes = [h], logged = lg\<rparr>"]
    have "kept (dedup_loop P md ps \<lparr>kept = [p], kept_hashes = [h], logged = lg\<rparr>) \<noteq> []" by auto
    with Inr show ?thesis by simp
  qed
qed

text \<open>
  The run with cutoff 0 against a run with a cutoff \<open>md \<ge> 0\<close>: the former never has fewer kept
  paths, and it is strictly ahead whenever the two baselines differ.
\<close>

lemma dedup_loop_zero_most:
  assumes "0 \<le> md"
    and "kept_hashes s = [] \<longleftrightarrow> kept_hashes z = []"
    and "length (kept s) \<le> length (kept z)"
    and "kept_hashes s \<noteq> [] \<Longrightarrow> last (kept_hashes s) \<noteq> last (kept_hashes z) \<Longrightarrow>
         length (kept s) < length (kept z)"
  shows "length (kept (dedup_loop P md paths s)) \<le> length (kept (dedup_loop P 0 paths z))"
  using assms(2-)
proof (induction paths arbitrary: s z)
  case Nil
  then show ?case by simp
next
  case (Cons p ps)
  show ?case
  proof (cases "fingerprint P p")
    case (Inl exc)
    have "length (kept (dedup_loop P md ps (s\<lparr>logged := logged s @ [Warning_skipping p exc]\<rparr>)))
        \<le> length (kept (dedup_loop P 0 ps (z\<lparr>logged := logged z @ [Warning_skipping p exc]\<rparr>)))"
      using Cons.prems by (intro Cons.IH) simp_all
    with Inl show ?thesis by simp
  next
    case (Inr h)
    let ?s' = "s\<lparr>kept := kept s @ [p], kept_hashes := kept_hashes s @ [h]\<rparr>"
    let ?z' = "z\<lparr>kept := kept z @ [p], kept_hashes := kept_hashes z @ [h]\<rparr>"
    show ?thesis
    proof (cases "kept_hashes s = []")
      case True
      with Cons.prems(1) have zn: "kept_hashes z = []" by simp
      have "length (kept (dedup_loop P md ps ?s')) \<le> length (kept (dedup_loop P 0 ps ?z'))"
        using Cons.prems by (intro Cons.IH) simp_all
      with Inr True zn show ?thesis by simp
    next
      case False
      with Cons.prems(1) have zn: "kept_hashes z \<noteq> []" by simp
      let ?b = "last (kept_hashes s)" and ?c = "last (kept_hashes z)"
      show ?thesis
      proof (cases "md < int (hamming h ?b)")
        case far: True
        with assms(1) have hb: "h \<noteq> ?b" using hamming_self [of h] by auto
        show ?thesis
        proof (cases "0 < int (hamming h ?c)")
          case True
          have "length (kept (dedup_loop P md ps ?s')) \<le> length (kept (dedup_loop P 0 ps ?z'))"
            using Cons.prems by (intro Cons.IH) simp_all
          with Inr False zn far True show ?thesis by simp
        next
          case same: False
          then have hc: "h = ?c" by (intro hamming_eq_0) simp
          with hb have "?b \<noteq> ?c" by simp
          from Cons.prems(3) [OF False this] hc zn
          have "length (kept (dedup_loop P md ps ?s')) \<le> length (kept (dedup_loop P 0 ps z))"
            by (intro Cons.IH) simp_all
          with Inr False zn far same show ?thesis by simp
        qed
      next
        case near: False
        show ?thesis
        proof (cases "0 < int (hamming h ?c)")
          case True
          have "length (kept (dedup_loop P md ps s)) \<le> length (kept (dedup_loop P 0 ps ?z'))"
            using Cons.prems False by (intro Cons.IH) simp_all
          with Inr False zn near True show ?thesis by simp
        next
          case same: False
          have "length (kept (dedup_loop P md ps s)) \<le> length (kept (dedup_loop P 0 ps z))"
            using Cons.prems by (intro Cons.IH) simp_all
          with Inr False zn near same show ?thesis by simp
        qed
      qed
    qed
  qed
qed

section \<open>Sample values\<close>

lemma fp1: "fingerprint sample_pillow ''slide_000001.png'' = Inr 0"
  by code_simp
lemma fp2: "fingerprint sample_pillow ''slide_000002.png'' = Inr 4095"
  by code_simp
lemma fp3: "fingerprint sample_pillow ''slide_000003.png'' = Inr 1048575"
  by code_simp
lemma fp4: "fingerprint sample_pillow ''slide_000004.png'' = Inr 15"
  by code_simp
lemma fp5: "fingerprint sample_pillow ''slide_000005.png'' = Inr 0"
  by code_simp
lemma fp_missing: "fingerprint sample_pillow ''missing.png'' = Inl PillowError"
  by code_simp

lemmas sample_fingerprints = fp1 fp2 fp3 fp4 fp5 fp_missing

lemma sample_hamming:
  "hamming 4095 0 = 12" "hamming 1048575 0 = 20" "hamming 15 0 = 4" "hamming 0 0 = 0"
  "hamming 1048575 4095 = 8" "hamming 15 4095 = 8" "hamming 15 1048575 = 16"
  "hamming 0 4095 = 12" "hamming 0 1048575 = 20" "hamming 0 15 = 4"
  by (simp_all add: hamming_def bin_def bin_digits.simps)

lemma sample_max_dist:
  "max_dist_of (Finite (1 / 2)) = Inr 128"
  "max_dist_of (Finite (241 / 256)) = Inr 15"
  "max_dist_of (Finite (123 / 128)) = Inr 10"
  "max_dist_of (Finite (3 / 2)) = Inr (- 128)"
  "max_dist_of (Finite 1) = Inr 0"
  "max_dist_of (Finite 0) = Inr 256"
  using max_dist_of_exact [of 1 "- 1" "1 / 2"] max_dist_of_exact [of 15 "- 8" "241 / 256"]
    max_dist_of_exact [of 10 "- 8" "123 / 128"] max_dist_of_exact [of "- 1" "- 1" "3 / 2"]
    max_dist_of_exact [of 0 0 1] max_dist_of_exact [of 1 0 0]
  by (simp_all add: power_int_minus)

lemma frame_20_facts:
  "length (frame 20) = (HASH_SIZE + 1) * HASH_SIZE" "frame 20 ! 270 > frame 20 ! 271"
  by code_simp+

lemma floor_three_quarters: "\<lfloor>(3::rat) / 4\<rfloor> = 0"
  by (simp add: floor_eq_iff)

lemma sample_max_dist_1021: "max_dist_of (Finite (1021 / 1024)) = Inr 0"
  using max_dist_of_exact [of 3 "- 10" "1021 / 1024"]
  by (simp add: power_int_minus floor_three_quarters)

lemma sample_images_differ:
  "image_open sample_pillow ''slide_000001.png'' \<noteq> image_open sample_pillow ''slide_000004.png''"
  by code_simp

section \<open>The distance as a count of differing bits\<close>

lemma count_bits_Suc:
  "length (filter (bit (m::nat)) [0..<Suc k]) =
   (if odd m then 1 else 0) + length (filter (bit (m div 2)) [0..<k])"
proof -
  have "[0..<Suc k] = 0 # map Suc [0..<k]"
    by (simp add: upt_conv_Cons map_Suc_upt del: upt_Suc)
  then show ?thesis
    by (simp add: filter_map o_def bit_Suc bit_0 del: upt_Suc)
qed

lemma bin_digits_count:
  "m < 2 ^ n \<Longrightarrow> count_list (bin_digits m) CHR ''1'' = length (filter (bit m) [0..<n])"
proof (induction n arbitrary: m)
  case 0
  then have "m = 0" by simp
  then show ?case by (simp add: bin_digits.simps)
next
  case (Suc k)
  show ?case
  proof (cases "m < 2")
    case True
    then have d: "bin_digits m = [if m = 0 then CHR ''0'' else CHR ''1'']"
      by (subst bin_digits.simps) simp
    from True have z: "m div 2 = 0" by simp
    from True have "odd m \<longleftrightarrow> m \<noteq> 0" by presburger
    then show ?thesis by (simp add: d count_bits_Suc z del: upt_Suc)
  next
    case False
    from Suc.prems have "m div 2 < 2 ^ k" by auto
    from Suc.IH [OF this] False show ?thesis
      by (simp add: bin_digits.simps [of m] count_bits_Suc odd_iff_mod_2_eq_one del: upt_Suc)
  qed
qed

lemma hamming_differing_bits:
  assumes "0 \<le> a" "a < 2 ^ n" "0 \<le> b" "b < 2 ^ n"
  shows "hamming a b = differing_bits n a b"
proof -
  have x: "0 \<le> a XOR b" "a XOR b < 2 ^ n" using assms by (simp_all add: XOR_upper)
  then have lt: "nat \<bar>a XOR b\<bar> < 2 ^ n" by (simp add: nat_less_iff)
  have "bit (nat \<bar>a XOR b\<bar>) i \<longleftrightarrow> bit a i \<noteq> bit b i" for i
    using x(1) by (simp add: bit_nat_iff bit_xor_iff)
  then have "filter (bit (nat \<bar>a XOR b\<bar>)) [0..<n] = filter (\<lambda>i. bit a i \<noteq> bit b i) [0..<n]"
    by (intro filter_cong) auto
  with bin_digits_count [OF lt] x(1) show ?thesis
    by (simp add: hamming_def bin_def differing_bits_def)
qed

lemma fingerprint_hamming:
  assumes "fingerprint P p = Inr h" and "fingerprint P p' = Inr g"
  shows "hamming h g = differing_bits (HASH_SIZE * HASH_SIZE) h g"
  using fingerprint_bounds [OF assms(1)] fingerprint_bounds [OF assms(2)]
  by (intro hamming_differing_bits) (simp_all add: HASH_SIZE_def)

lemma sample_differing_bits:
  "differing_bits (HASH_SIZE * HASH_SIZE) 1048575 0 = 20"
  "differing_bits (HASH_SIZE * HASH_SIZE) 1048575 4095 = 8"
  using fingerprint_hamming [OF fp3 fp1] fingerprint_hamming [OF fp3 fp2]
  by (simp_all add: sample_hamming)

section \<open>Thresholds at which the conversion raises\<close>

lemma max_dist_of_in_range:
  assumes "\<bar>round_value (1 - q)\<bar> < 2 ^ 1016"
  shows "max_dist_of (Finite q) = py_int (Finite (round_value (1 - q) * 256))"
proof -
  let ?d = "round_value (1 - q)"
  from assms have "\<bar>?d\<bar> < 2 ^ 1024" by (rule less_trans) simp
  then have sub: "round_double (1 - q) = Finite ?d" by (rule round_double_Finite)
  have "\<bar>?d * 256\<bar> = \<bar>?d\<bar> * 256" by (simp add: abs_mult)
  also have "\<dots> < 2 ^ 1016 * 256" using assms by simp
  also have "\<dots> = (2::rat) ^ 1024" by simp
  finally have "\<bar>round_value (?d * 256)\<bar> < 2 ^ 1024" by (simp only: round_value_scale)
  then have "round_double (?d * 256) = Finite (round_value (?d * 256))"
    by (rule round_double_Finite)
  then have mul: "round_double (?d * 256) = Finite (?d * 256)" by (simp only: round_value_scale)
  have h: "int (HASH_SIZE * HASH_SIZE) = 256" by (simp add: HASH_SIZE_def)
  show ?thesis
    by (simp only: max_dist_of_def float_sub.simps sub h float_of_int_256 float_mul.simps mul)
qed

lemma round_double_cases:
  "round_double x = Finite (round_value x) \<and> \<bar>round_value x\<bar> < 2 ^ 1024 \<or>
   round_double x = PosInf \<or> round_double x = NegInf"
  by (simp add: round_double_def Let_def not_le)

lemma max_dist_of_overflow:
  assumes "2 ^ 1016 \<le> \<bar>round_value (1 - q)\<bar>"
  shows "max_dist_of (Finite q) = Inl OverflowError"
proof -
  let ?d = "round_value (1 - q)"
  have h: "int (HASH_SIZE * HASH_SIZE) = 256" by (simp add: HASH_SIZE_def)
  have md: "max_dist_of (Finite q) = py_int (float_mul (round_double (1 - q)) (Finite 256))"
    by (simp only: max_dist_of_def float_sub.simps h float_of_int_256)
  from round_double_cases [of "1 - q"] show ?thesis
  proof (elim disjE conjE)
    assume f: "round_double (1 - q) = Finite ?d"
    have "\<bar>round_value (?d * 256)\<bar> = \<bar>?d * 256\<bar>"
      by (simp only: round_value_scale)
    also have "\<dots> = \<bar>?d\<bar> * 256" by (simp add: abs_mult)
    also have "\<dots> \<ge> 2 ^ 1016 * 256" using assms by simp
    finally have "(2::rat) ^ 1024 \<le> \<bar>round_value (?d * 256)\<bar>" by simp
    then have "round_double (?d * 256) = PosInf \<or> round_double (?d * 256) = NegInf"
      by (simp add: round_double_def Let_def)
    then show ?thesis by (auto simp: md f)
  next
    assume "round_double (1 - q) = PosInf"
    then show ?thesis by (simp add: md)
  next
    assume "round_double (1 - q) = NegInf"
    then show ?thesis by (simp add: md)
  qed
qed

lemma max_dist_of_overflow_large:
  assumes "2 ^ 1016 \<le> \<bar>1 - q\<bar>"
  shows "max_dist_of (Finite q) = Inl OverflowError"
proof -
  from assms have "2 powi 1016 \<le> \<bar>1 - q\<bar>" by simp
  then have "2 powi 1016 \<le> \<bar>round_value (1 - q)\<bar>" by (rule round_value_abs_ge) simp
  then have "2 ^ 1016 \<le> \<bar>round_value (1 - q)\<bar>" by simp
  then show ?thesis by (rule max_dist_of_overflow)
qed

lemma py_int_Finite_Inr: "\<exists>md. py_int (Finite x) = Inr md"
  by simp

lemma deduplicate_overflow:
  "2 ^ 1016 \<le> \<bar>round_value (1 - q)\<bar> \<Longrightarrow> deduplicate P paths (Finite q) = Inl OverflowError"
  by (rule deduplicate_Inl [OF max_dist_of_overflow])

lemma deduplicate_runs:
  assumes "\<bar>round_value (1 - q)\<bar> < 2 ^ 1016"
  shows "\<exists>out. deduplicate P paths (Finite q) = Inr out"
proof -
  from max_dist_of_in_range [OF assms] py_int_Finite_Inr [of "round_value (1 - q) * 256"]
  obtain md where "max_dist_of (Finite q) = Inr md" by auto
  from deduplicate_Inr [OF this] show ?thesis by blast
qed

lemma deduplicate_nonfinite:
  "deduplicate P paths NaN = Inl ValueError"
  "deduplicate P paths PosInf = Inl OverflowError"
  "deduplicate P paths NegInf = Inl OverflowError"
  by (simp_all add: deduplicate_Inl max_dist_of_def HASH_SIZE_def float_of_int_256)

lemma deduplicate_error_cases:
  assumes "deduplicate P paths t = Inl e"
  shows "t = NaN \<and> e = ValueError \<or>
         (t = PosInf \<or> t = NegInf \<or> (\<exists>x. t = Finite x \<and> 2 ^ 1016 \<le> \<bar>round_value (1 - x)\<bar>)) \<and>
         e = OverflowError"
proof (cases t)
  case (Finite x)
  show ?thesis
  proof (cases "\<bar>round_value (1 - x)\<bar> < 2 ^ 1016")
    case True
    from deduplicate_runs [OF this, of P paths] assms Finite show ?thesis by auto
  next
    case False
    then have "2 ^ 1016 \<le> \<bar>round_value (1 - x)\<bar>" by simp
    with deduplicate_overflow [OF this, of P paths] assms Finite show ?thesis by auto
  qed
qed (use assms in \<open>auto simp: deduplicate_nonfinite\<close>)

section \<open>Claims\<close>

text \<open>
  C1. Let \<open>s\<close> be the state of the loop when a candidate \<open>p\<close> is reached, after the candidates
  \<open>pre\<close>, and let the fingerprint \<open>h\<close> of \<open>p\<close> be computed successfully. Then \<open>p\<close> is appended to
  \<open>kept\<close> if and only if nothing is kept yet or the Hamming distance between \<open>h\<close> and the
  fingerprint of the last kept path (not of the preceding candidate), that is the number of
  positions among the 256 bits in which the two fingerprints differ, is strictly greater than
  the cutoff; a distance equal to the cutoff discards \<open>p\<close>. The list of kept fingerprints, whose
  last element is the baseline, grows by \<open>h\<close> exactly when \<open>p\<close> is kept, and the decision is
  final: what is kept after \<open>p\<close> is a prefix of what is kept at the end of any longer input.
  In the example after the theorem the candidate is kept at distance 20 from the last kept
  frame, although it is within the cutoff 15 of the candidate just before it.
\<close>

theorem retained_iff_far_from_last_kept:
  assumes "fingerprint P p = Inr h"
    and "s = dedup_loop P md pre \<lparr>kept = [], kept_hashes = [], logged = lg\<rparr>"
    and "s' = dedup_loop P md (pre @ [p]) \<lparr>kept = [], kept_hashes = [], logged = lg\<rparr>"
  shows "kept s' =
           (if kept s = [] \<or>
               (\<exists>g. fingerprint P (last (kept s)) = Inr g \<and>
                    md < int (differing_bits (HASH_SIZE * HASH_SIZE) h g))
            then kept s @ [p] else kept s) \<and>
         kept_hashes s' =
           (if kept s = [] \<or>
               (\<exists>g. fingerprint P (last (kept s)) = Inr g \<and>
                    md < int (differing_bits (HASH_SIZE * HASH_SIZE) h g))
            then kept_hashes s @ [h] else kept_hashes s) \<and>
         (\<forall>post. prefix (kept s')
            (kept (dedup_loop P md (pre @ p # post) \<lparr>kept = [], kept_hashes = [], logged = lg\<rparr>)))"
proof -
  let ?init = "\<lparr>kept = [], kept_hashes = [], logged = lg\<rparr>"
  have len: "length (kept_hashes s) = length (kept s)"
    by (rule dedup_loop_start_hashes(1) [OF assms(2)])
  then have e: "kept_hashes s = [] \<longleftrightarrow> kept s = []" by auto
  have c: "(kept_hashes s = [] \<or> md < int (hamming h (last (kept_hashes s)))) \<longleftrightarrow>
     (kept s = [] \<or> (\<exists>g. fingerprint P (last (kept s)) = Inr g \<and>
        md < int (differing_bits (HASH_SIZE * HASH_SIZE) h g)))"
  proof (cases "kept s = []")
    case True
    with e show ?thesis by simp
  next
    case False
    have l: "fingerprint P (last (kept s)) = Inr (last (kept_hashes s))"
      by (rule dedup_loop_start_last [OF assms(2) False])
    from fingerprint_hamming [OF assms(1) l] l False e show ?thesis by simp
  qed
  have step: "s' = (if kept_hashes s = [] \<or> md < int (hamming h (last (kept_hashes s)))
         then s\<lparr>kept := kept s @ [p], kept_hashes := kept_hashes s @ [h]\<rparr> else s)"
    unfolding assms(2,3) using dedup_loop_snoc [OF assms(1), of md pre ?init]
    by (simp add: Let_def)
  have pre: "prefix (kept s') (kept (dedup_loop P md (pre @ p # post) ?init))" for post
  proof -
    have "dedup_loop P md (pre @ p # post) ?init = dedup_loop P md post s'"
      using dedup_loop_append [of P md "pre @ [p]" post ?init] by (simp add: assms(3))
    with dedup_loop_kept_subseq [of P md post s'] show ?thesis by (auto simp: prefix_def)
  qed
  from step c pre show ?thesis by auto
qed

theorem retained_iff_far_from_last_kept_witness:
  "fingerprint sample_pillow ''slide_000003.png'' = Inr 1048575 \<and>
   dedup_loop sample_pillow 15 [''slide_000001.png'', ''slide_000002.png'']
     \<lparr>kept = [], kept_hashes = [], logged = []\<rparr> =
   \<lparr>kept = [''slide_000001.png''], kept_hashes = [0], logged = []\<rparr> \<and>
   fingerprint sample_pillow ''slide_000001.png'' = Inr 0 \<and>
   fingerprint sample_pillow ''slide_000002.png'' = Inr 4095 \<and>
   (15::int) < int (differing_bits (HASH_SIZE * HASH_SIZE) 1048575 0) \<and>
   int (differing_bits (HASH_SIZE * HASH_SIZE) 1048575 4095) < 15 \<and>
   kept (dedup_loop sample_pillow 15 [''slide_000001.png'', ''slide_000002.png'', ''slide_000003.png'']
     \<lparr>kept = [], kept_hashes = [], logged = []\<rparr>) =
   [''slide_000001.png'', ''slide_000003.png'']"
proof -
  let ?init = "\<lparr>kept = [], kept_hashes = [], logged = []\<rparr>"
  have s: "\<lparr>kept = [''slide_000001.png''], kept_hashes = [0], logged = []\<rparr> =
    dedup_loop sample_pillow 15 [''slide_000001.png'', ''slide_000002.png''] ?init"
    by (simp add: sample_fingerprints sample_hamming)
  from retained_iff_far_from_last_kept [OF fp3 s refl]
  have "kept (dedup_loop sample_pillow 15 ([''slide_000001.png'', ''slide_000002.png''] @ [''slide_000003.png'']) ?init) =
      (if \<exists>g. fingerprint sample_pillow ''slide_000001.png'' = Inr g \<and>
              15 < int (differing_bits (HASH_SIZE * HASH_SIZE) 1048575 g)
       then [''slide_000001.png'', ''slide_000003.png'']
       else [''slide_000001.png''])"
    by simp
  then have "kept (dedup_loop sample_pillow 15 [''slide_000001.png'', ''slide_000002.png'', ''slide_000003.png''] ?init) =
      [''slide_000001.png'', ''slide_000003.png'']"
    by (simp add: fp1 sample_differing_bits)
  with s fp1 fp2 fp3 show ?thesis by (simp add: sample_differing_bits)
qed

text \<open>
  C2, as stated, fails: the threshold 1021/1024 is a binary64 value, \<open>1.0 - 1021/1024\<close> and
  its product with 256 are exact and equal 0.75, and \<^verbatim>\<open>int\<close> truncates it to 0, where rounding
  gives 1.
\<close>

theorem cutoff_rounded_counterexample:
  "(0::rat) \<le> 1021 / 1024 \<and> (1021 / 1024 :: rat) \<le> 1 \<and>
   max_dist_of (Finite (1021 / 1024)) = Inr 0 \<and> spec_max_distance (1021 / 1024) = 1"
  by (simp add: sample_max_dist_1021 spec_max_distance_def round_half_even_def HASH_SIZE_def
      floor_three_quarters)

text \<open>
  C2, amended. For a threshold in \<open>[0, 1]\<close> the cutoff is \<^verbatim>\<open>int((1.0 - threshold) * 256)\<close>: with
  \<open>d\<close> the binary64 value nearest to \<open>1 - threshold\<close>, which lies in \<open>[0, 1]\<close> and within
  \<open>2 ^ - 53\<close> of it, the product \<open>d * 256\<close> is exact and the cutoff is its integer part
  \<open>\<lfloor>d * 256\<rfloor>\<close> (truncation, not rounding to nearest), a number between 0 and 256. It is a
  function of the threshold alone, computed before the loop.
\<close>

theorem cutoff_truncated:
  assumes "0 \<le> q" and "q \<le> 1"
  shows "\<exists>d. float_sub (Finite 1) (Finite q) = Finite d \<and> \<bar>d - (1 - q)\<bar> \<le> 1 / 2 ^ 53 \<and>
             0 \<le> d \<and> d \<le> 1 \<and>
             float_mul (Finite d) (float_of_int (int (HASH_SIZE * HASH_SIZE))) = Finite (d * 256) \<and>
             max_dist_of (Finite q) = Inr \<lfloor>d * 256\<rfloor> \<and>
             0 \<le> \<lfloor>d * 256\<rfloor> \<and> \<lfloor>d * 256\<rfloor> \<le> 256"
proof -
  let ?d = "round_value (1 - q)"
  from assms have x: "0 \<le> 1 - q" "1 - q \<le> 1" by simp_all
  note r = round_value_unit_interval [OF x]
  from r(1,2) have d1: "\<bar>?d\<bar> \<le> 1" by simp
  then have "\<bar>?d\<bar> < 2 ^ 1024" by (rule order_le_less_trans) simp
  then have sub: "float_sub (Finite 1) (Finite q) = Finite ?d"
    by (simp add: round_double_Finite)
  have "\<bar>?d * 256\<bar> = \<bar>?d\<bar> * 256" by (simp add: abs_mult)
  also have "\<dots> \<le> 1 * 256" using d1 by (intro mult_right_mono) simp_all
  also have "\<dots> < (2::rat) ^ 1024" by simp
  finally have "\<bar>round_value (?d * 256)\<bar> < 2 ^ 1024" by (simp only: round_value_scale)
  then have "round_double (?d * 256) = Finite (round_value (?d * 256))"
    by (rule round_double_Finite)
  then have mul: "float_mul (Finite ?d) (float_of_int (int (HASH_SIZE * HASH_SIZE))) = Finite (?d * 256)"
    by (simp add: HASH_SIZE_def float_of_int_256 round_value_scale)
  from sub r mul max_dist_of_unit_interval [OF assms] show ?thesis by blast
qed

theorem cutoff_truncated_witness:
  "(0::rat) \<le> 1021 / 1024 \<and> (1021 / 1024 :: rat) \<le> 1 \<and>
   (\<exists>d. float_sub (Finite 1) (Finite (1021 / 1024)) = Finite d \<and>
        max_dist_of (Finite (1021 / 1024)) = Inr \<lfloor>d * 256\<rfloor> \<and> \<lfloor>d * 256\<rfloor> = 0)"
proof -
  have a: "(0::rat) \<le> 1021 / 1024" and b: "(1021 / 1024 :: rat) \<le> 1" by simp_all
  from cutoff_truncated [OF a b] obtain d
    where "float_sub (Finite 1) (Finite (1021 / 1024)) = Finite d"
      and "max_dist_of (Finite (1021 / 1024)) = Inr \<lfloor>d * 256\<rfloor>" by blast
  then show ?thesis using sample_max_dist_1021 by auto
qed

text \<open>
  C3, as stated, fails. Four frames with the fingerprints \<open>0\<close>, \<open>2 ^ 12 - 1\<close>, \<open>2 ^ 20 - 1\<close>
  and \<open>2 ^ 4 - 1\<close>: at the threshold 241/256 (cutoff 15) the second is within the cutoff of
  the first, and the third and fourth are each farther than 15 from the frame kept before
  them, so three are kept; at the higher threshold 123/128 (cutoff 10) the second is kept, and
  the third and fourth are within 10 of it, so two are kept.
\<close>

theorem count_monotone_counterexample:
  "(241 / 256 :: rat) < 123 / 128 \<and>
   deduplicate sample_pillow
     [''slide_000001.png'', ''slide_000002.png'', ''slide_000003.png'', ''slide_000004.png'']
     (Finite (241 / 256)) =
   Inr [''slide_000001.png'', ''slide_000003.png'', ''slide_000004.png''] \<and>
   deduplicate sample_pillow
     [''slide_000001.png'', ''slide_000002.png'', ''slide_000003.png'', ''slide_000004.png'']
     (Finite (123 / 128)) =
   Inr [''slide_000001.png'', ''slide_000002.png'']"
  by (simp add: deduplicate_Inr [OF sample_max_dist(2)] deduplicate_Inr [OF sample_max_dist(3)]
      sample_fingerprints sample_hamming)

text \<open>
  C3, amended. For a fixed candidate sequence and a threshold in \<open>[0, 1]\<close>, the number of paths
  kept is at least the number kept at the threshold 0.0 and at most the number kept at the
  threshold 1.0.
\<close>

theorem count_between_extremes:
  assumes "0 \<le> q" and "q \<le> 1"
  shows "\<exists>lo out hi. deduplicate P paths (Finite 0) = Inr lo \<and>
            deduplicate P paths (Finite q) = Inr out \<and>
            deduplicate P paths (Finite 1) = Inr hi \<and>
            length lo \<le> length out \<and> length out \<le> length hi"
proof -
  from max_dist_of_unit_interval [OF assms] obtain md
    where md: "max_dist_of (Finite q) = Inr md" "0 \<le> md" by blast
  let ?run = "\<lambda>m t. kept (dedup_loop P m paths
      \<lparr>kept = [], kept_hashes = [], logged = [Info_frames_in (length paths) m t]\<rparr>)"
  have lo: "deduplicate P paths (Finite 0) = Inr (?run 256 (Finite 0))"
    by (rule deduplicate_Inr [OF sample_max_dist(6)])
  have out: "deduplicate P paths (Finite q) = Inr (?run md (Finite q))"
    by (rule deduplicate_Inr [OF md(1)])
  have hi: "deduplicate P paths (Finite 1) = Inr (?run 0 (Finite 1))"
    by (rule deduplicate_Inr [OF sample_max_dist(5)])
  have first: "?run 256 (Finite 0) = take 1 (filter (\<lambda>p. \<not> isl (fingerprint P p)) paths)"
    by (rule dedup_loop_saturated_start) simp
  have "length (?run 256 (Finite 0)) \<le> length (?run md (Finite q))"
  proof (cases "filter (\<lambda>p. \<not> isl (fingerprint P p)) paths = []")
    case True
    with first show ?thesis by simp
  next
    case False
    from dedup_loop_first_readable [OF this]
    have "?run md (Finite q) \<noteq> []" .
    then have "1 \<le> length (?run md (Finite q))" by (cases "?run md (Finite q)") simp_all
    moreover have "length (?run 256 (Finite 0)) \<le> 1" by (simp add: first)
    ultimately show ?thesis by linarith
  qed
  moreover have "length (?run md (Finite q)) \<le> length (?run 0 (Finite 1))"
    by (rule dedup_loop_zero_most [OF md(2)]) simp_all
  ultimately show ?thesis using lo out hi by blast
qed

theorem count_between_extremes_witness:
  "(0::rat) \<le> 241 / 256 \<and> (241 / 256 :: rat) \<le> 1 \<and>
   deduplicate sample_pillow
     [''slide_000001.png'', ''slide_000002.png'', ''slide_000003.png'', ''slide_000004.png'']
     (Finite 0) = Inr [''slide_000001.png''] \<and>
   deduplicate sample_pillow
     [''slide_000001.png'', ''slide_000002.png'', ''slide_000003.png'', ''slide_000004.png'']
     (Finite (241 / 256)) = Inr [''slide_000001.png'', ''slide_000003.png'', ''slide_000004.png''] \<and>
   deduplicate sample_pillow
     [''slide_000001.png'', ''slide_000002.png'', ''slide_000003.png'', ''slide_000004.png'']
     (Finite 1) =
     Inr [''slide_000001.png'', ''slide_000002.png'', ''slide_000003.png'', ''slide_000004.png''] \<and>
   (\<exists>lo out hi. deduplicate sample_pillow
       [''slide_000001.png'', ''slide_000002.png'', ''slide_000003.png'', ''slide_000004.png'']
       (Finite 0) = Inr lo \<and>
     deduplicate sample_pillow
       [''slide_000001.png'', ''slide_000002.png'', ''slide_000003.png'', ''slide_000004.png'']
       (Finite (241 / 256)) = Inr out \<and>
     deduplicate sample_pillow
       [''slide_000001.png'', ''slide_000002.png'', ''slide_000003.png'', ''slide_000004.png'']
       (Finite 1) = Inr hi \<and>
     length lo \<le> length out \<and> length out \<le> length hi)"
proof -
  have a: "(0::rat) \<le> 241 / 256" and b: "(241 / 256 :: rat) \<le> 1" by simp_all
  have v: "deduplicate sample_pillow
     [''slide_000001.png'', ''slide_000002.png'', ''slide_000003.png'', ''slide_000004.png'']
     (Finite 0) = Inr [''slide_000001.png'']"
     "deduplicate sample_pillow
     [''slide_000001.png'', ''slide_000002.png'', ''slide_000003.png'', ''slide_000004.png'']
     (Finite (241 / 256)) = Inr [''slide_000001.png'', ''slide_000003.png'', ''slide_000004.png'']"
     "deduplicate sample_pillow
     [''slide_000001.png'', ''slide_000002.png'', ''slide_000003.png'', ''slide_000004.png'']
     (Finite 1) =
     Inr [''slide_000001.png'', ''slide_000002.png'', ''slide_000003.png'', ''slide_000004.png'']"
    by (simp_all add: deduplicate_Inr [OF sample_max_dist(6)] deduplicate_Inr [OF sample_max_dist(2)]
        deduplicate_Inr [OF sample_max_dist(5)] sample_fingerprints sample_hamming)
  from count_between_extremes [OF a b, of sample_pillow
     "[''slide_000001.png'', ''slide_000002.png'', ''slide_000003.png'', ''slide_000004.png'']"]
  show ?thesis using a b v by blast
qed

text \<open>
  C4. Whenever \<^verbatim>\<open>deduplicate\<close> gets past the conversion of the threshold, it returns a
  subsequence of its input: the kept paths occur in the input in the same relative order,
  nothing is inserted, and no path occurs more often in the output than in the input.
\<close>

theorem dedup_subsequence:
  assumes "max_dist_of t = Inr md"
  shows "\<exists>out. deduplicate P paths t = Inr out \<and> subseq out paths \<and>
               (\<forall>p. count_list out p \<le> count_list paths p)"
proof -
  let ?s0 = "\<lparr>kept = [], kept_hashes = [], logged = [Info_frames_in (length paths) md t]\<rparr>"
  from dedup_loop_kept_subseq [of P md paths ?s0]
  have "subseq (kept (dedup_loop P md paths ?s0)) paths" by simp
  then show ?thesis
    by (auto simp: deduplicate_Inr [OF assms] subseq_count_list)
qed

theorem dedup_subsequence_witness:
  "max_dist_of (Finite (1 / 2)) = Inr 128 \<and>
   deduplicate sample_pillow
     [''slide_000001.png'', ''missing.png'', ''slide_000002.png'', ''slide_000003.png'']
     (Finite (1 / 2)) = Inr [''slide_000001.png''] \<and>
   subseq [''slide_000001.png'']
     [''slide_000001.png'', ''missing.png'', ''slide_000002.png'', ''slide_000003.png'']"
proof -
  have md: "max_dist_of (Finite (1 / 2)) = Inr 128" by (rule sample_max_dist)
  have out: "deduplicate sample_pillow
     [''slide_000001.png'', ''missing.png'', ''slide_000002.png'', ''slide_000003.png'']
     (Finite (1 / 2)) = Inr [''slide_000001.png'']"
    by (simp add: deduplicate_Inr [OF md] sample_fingerprints sample_hamming)
  from dedup_subsequence [OF md, of sample_pillow
     "[''slide_000001.png'', ''missing.png'', ''slide_000002.png'', ''slide_000003.png'']"]
  show ?thesis using md out by auto
qed

text \<open>
  C5. When the first candidate of a non-empty input can be fingerprinted (in particular when
  every candidate can), the result begins with it, whatever the threshold; a single candidate
  that can be fingerprinted is the whole result.
\<close>

theorem first_retained:
  assumes "max_dist_of t = Inr md" and "fingerprint P p = Inr h"
  shows "(\<exists>out. deduplicate P (p # ps) t = Inr (p # out)) \<and> deduplicate P [p] t = Inr [p]"
proof -
  let ?first = "\<lparr>kept = [p], kept_hashes = [h],
              logged = [Info_frames_in (length (p # ps)) md t]\<rparr>"
  from dedup_loop_kept_subseq [of P md ps ?first]
  obtain ys where "kept (dedup_loop P md ps ?first) = p # ys" by auto
  then have "deduplicate P (p # ps) t = Inr (p # ys)"
    by (simp add: deduplicate_Inr [OF assms(1)] assms(2))
  moreover have "deduplicate P [p] t = Inr [p]"
    by (simp add: deduplicate_Inr [OF assms(1)] assms(2))
  ultimately show ?thesis by blast
qed

theorem first_retained_witness:
  "max_dist_of (Finite (1 / 2)) = Inr 128 \<and>
   fingerprint sample_pillow ''slide_000001.png'' = Inr 0 \<and>
   (\<exists>out. deduplicate sample_pillow
            [''slide_000001.png'', ''slide_000002.png'', ''slide_000003.png''] (Finite (1 / 2)) =
          Inr (''slide_000001.png'' # out)) \<and>
   deduplicate sample_pillow [''slide_000001.png''] (Finite (1 / 2)) = Inr [''slide_000001.png'']"
  using first_retained [OF sample_max_dist(1) fp1, of "[''slide_000002.png'', ''slide_000003.png'']"]
    sample_max_dist(1) fp1 by simp

text \<open>
  C6. A candidate whose fingerprinting raises is skipped and the pass goes on: the result is
  the one computed on the input without the failing candidates, so that such a candidate is
  neither kept nor a baseline; every kept path has a fingerprint; if every candidate fails the
  result is the empty list and nothing is raised; one warning is logged per failing candidate.
\<close>

theorem unreadable_skipped:
  assumes "max_dist_of t = Inr md"
  shows "\<exists>s. deduplicate_run P paths t = Inr s \<and>
              deduplicate P paths t = Inr (kept s) \<and>
              deduplicate P (filter (\<lambda>p. \<not> isl (fingerprint P p)) paths) t = Inr (kept s) \<and>
              (\<forall>p \<in> set (kept s). \<not> isl (fingerprint P p)) \<and>
              ((\<forall>p \<in> set paths. isl (fingerprint P p)) \<longrightarrow> kept s = []) \<and>
              length (filter is_warning (logged s)) =
                length (filter (\<lambda>p. isl (fingerprint P p)) paths)"
proof -
  let ?init = "\<lparr>kept = [], kept_hashes = [], logged = [Info_frames_in (length paths) md t]\<rparr>"
  let ?l = "dedup_loop P md paths ?init"
  let ?s = "?l\<lparr>logged := logged ?l @ [Info_kept (length (kept ?l))]\<rparr>"
  let ?f = "filter (\<lambda>p. \<not> isl (fingerprint P p)) paths"
  have run: "deduplicate_run P paths t = Inr ?s"
    by (rule deduplicate_run_Inr [OF assms])
  have out: "deduplicate P paths t = Inr (kept ?s)"
    by (simp add: deduplicate_Inr [OF assms])
  have "kept (dedup_loop P md ?f
          \<lparr>kept = [], kept_hashes = [], logged = [Info_frames_in (length ?f) md t]\<rparr>) = kept ?l"
    by (rule dedup_loop_filter) simp_all
  then have filtered: "deduplicate P ?f t = Inr (kept ?s)"
    by (simp add: deduplicate_Inr [OF assms])
  have readable: "\<forall>p \<in> set (kept ?s). \<not> isl (fingerprint P p)"
    using dedup_loop_kept_readable [of P md paths ?init] by auto
  have none: "(\<forall>p \<in> set paths. isl (fingerprint P p)) \<longrightarrow> kept ?s = []"
  proof
    assume "\<forall>p \<in> set paths. isl (fingerprint P p)"
    then have "{p \<in> set paths. \<not> isl (fingerprint P p)} = {}" by auto
    with dedup_loop_kept_readable [of P md paths ?init] have "set (kept ?l) \<subseteq> {}" by simp
    then show "kept ?s = []" by simp
  qed
  have warn: "length (filter is_warning (logged ?s)) =
      length (filter (\<lambda>p. isl (fingerprint P p)) paths)"
    by (simp add: dedup_loop_warnings)
  from run out filtered readable none warn show ?thesis by blast
qed

theorem unreadable_skipped_witness:
  "max_dist_of (Finite (1 / 2)) = Inr 128 \<and>
   (\<exists>s. deduplicate_run sample_pillow [''missing.png'', ''missing.png''] (Finite (1 / 2)) = Inr s \<and>
        deduplicate sample_pillow [''missing.png'', ''missing.png''] (Finite (1 / 2)) = Inr [] \<and>
        kept s = [] \<and> length (filter is_warning (logged s)) = 2)"
proof -
  have md: "max_dist_of (Finite (1 / 2)) = Inr 128" by (rule sample_max_dist)
  have all: "\<forall>p \<in> set [''missing.png'', ''missing.png'']. isl (fingerprint sample_pillow p)"
    by (simp add: sample_fingerprints)
  from unreadable_skipped [OF md, of sample_pillow "[''missing.png'', ''missing.png'']"] all
  obtain s where "deduplicate_run sample_pillow [''missing.png'', ''missing.png''] (Finite (1 / 2)) = Inr s"
    and "deduplicate sample_pillow [''missing.png'', ''missing.png''] (Finite (1 / 2)) = Inr (kept s)"
    and "kept s = []"
    and "length (filter is_warning (logged s)) =
         length (filter (\<lambda>p. isl (fingerprint sample_pillow p)) [''missing.png'', ''missing.png''])"
    by blast
  with md show ?thesis by (auto simp: sample_fingerprints)
qed

text \<open>
  C7, as stated, fails: with the threshold 1.5 no error is raised; the candidates are read
  and both are kept.
\<close>

theorem no_invalid_configuration_counterexample:
  "(1::rat) < 3 / 2 \<and>
   deduplicate sample_pillow [''slide_000001.png'', ''slide_000002.png''] (Finite (3 / 2)) =
     Inr [''slide_000001.png'', ''slide_000002.png'']"
  by (simp add: deduplicate_Inr [OF sample_max_dist(4)] sample_fingerprints sample_hamming)

text \<open>
  C7, amended. \<^verbatim>\<open>deduplicate\<close> does not validate the threshold. Before any candidate is read it
  raises what \<^verbatim>\<open>int\<close> raises, and nothing else: \<^verbatim>\<open>ValueError\<close> for NaN, and
  \<^verbatim>\<open>OverflowError\<close> for an infinity and for a finite threshold so large that the product
  with 256 overflows, which is the case exactly when the binary64 value nearest to
  \<open>1 - threshold\<close> has a magnitude of \<open>2 ^ 1016\<close> or more (so whenever
  \<open>\<bar>1 - threshold\<bar> \<ge> 2 ^ 1016\<close>). For every other threshold the run starts and returns a list.
  In particular, for a finite threshold outside \<open>[0, 1]\<close> of magnitude at most \<open>2 ^ 1000\<close>:
  above 1 the cutoff is at most 0, and from \<open>1 + 1/256\<close> on it is negative and every readable
  candidate is kept; below 0 the cutoff is at least 256 and only the first readable candidate
  is kept.
\<close>

theorem threshold_not_validated:
  "deduplicate P paths NaN = Inl ValueError \<and>
   deduplicate P paths PosInf = Inl OverflowError \<and>
   deduplicate P paths NegInf = Inl OverflowError \<and>
   (2 ^ 1016 \<le> \<bar>round_value (1 - q)\<bar> \<longrightarrow> deduplicate P paths (Finite q) = Inl OverflowError) \<and>
   (2 ^ 1016 \<le> \<bar>1 - q\<bar> \<longrightarrow> deduplicate P paths (Finite q) = Inl OverflowError) \<and>
   (\<bar>round_value (1 - q)\<bar> < 2 ^ 1016 \<longrightarrow> (\<exists>out. deduplicate P paths (Finite q) = Inr out)) \<and>
   ((q < 0 \<or> 1 < q) \<and> \<bar>q\<bar> \<le> 2 ^ 1000 \<longrightarrow>
     (\<exists>md out. max_dist_of (Finite q) = Inr md \<and> deduplicate P paths (Finite q) = Inr out \<and>
        (1 < q \<longrightarrow> md \<le> 0) \<and>
        (1 + 1 / 256 \<le> q \<longrightarrow> md < 0 \<and> out = filter (\<lambda>p. \<not> isl (fingerprint P p)) paths) \<and>
        (q < 0 \<longrightarrow> 256 \<le> md \<and> out = take 1 (filter (\<lambda>p. \<not> isl (fingerprint P p)) paths)))) \<and>
   (\<forall>t e. deduplicate P paths t = Inl e \<longrightarrow>
      t = NaN \<and> e = ValueError \<or>
      (t = PosInf \<or> t = NegInf \<or> (\<exists>x. t = Finite x \<and> 2 ^ 1016 \<le> \<bar>round_value (1 - x)\<bar>)) \<and>
      e = OverflowError)"
proof -
  have only: "\<forall>t e. deduplicate P paths t = Inl e \<longrightarrow>
      t = NaN \<and> e = ValueError \<or>
      (t = PosInf \<or> t = NegInf \<or> (\<exists>x. t = Finite x \<and> 2 ^ 1016 \<le> \<bar>round_value (1 - x)\<bar>)) \<and>
      e = OverflowError"
    using deduplicate_error_cases [of P paths] by blast
  have nonfinite: "deduplicate P paths NaN = Inl ValueError"
    "deduplicate P paths PosInf = Inl OverflowError"
    "deduplicate P paths NegInf = Inl OverflowError"
    by (simp_all add: deduplicate_Inl max_dist_of_def HASH_SIZE_def float_of_int_256)
  have over: "deduplicate P paths (Finite q) = Inl OverflowError"
    if "2 ^ 1016 \<le> \<bar>round_value (1 - q)\<bar>"
    by (rule deduplicate_Inl [OF max_dist_of_overflow [OF that]])
  have large: "deduplicate P paths (Finite q) = Inl OverflowError" if "2 ^ 1016 \<le> \<bar>1 - q\<bar>"
    by (rule deduplicate_Inl [OF max_dist_of_overflow_large [OF that]])
  have runs: "\<exists>out. deduplicate P paths (Finite q) = Inr out"
    if "\<bar>round_value (1 - q)\<bar> < 2 ^ 1016"
  proof -
    from max_dist_of_in_range [OF that] py_int_Finite_Inr [of "round_value (1 - q) * 256"]
    obtain md where "max_dist_of (Finite q) = Inr md" by auto
    from deduplicate_Inr [OF this] show ?thesis by blast
  qed
  have finite: "\<exists>md out. max_dist_of (Finite q) = Inr md \<and> deduplicate P paths (Finite q) = Inr out \<and>
        (1 < q \<longrightarrow> md \<le> 0) \<and>
        (1 + 1 / 256 \<le> q \<longrightarrow> md < 0 \<and> out = filter (\<lambda>p. \<not> isl (fingerprint P p)) paths) \<and>
        (q < 0 \<longrightarrow> 256 \<le> md \<and> out = take 1 (filter (\<lambda>p. \<not> isl (fingerprint P p)) paths))"
    if out: "q < 0 \<or> 1 < q" and mag: "\<bar>q\<bar> \<le> 2 ^ 1000"
  proof (cases "1 < q")
    case True
    with mag have "q \<le> 2 ^ 1000" by simp
    from max_dist_of_above_one [OF True this] obtain md
      where md: "max_dist_of (Finite q) = Inr md" "md \<le> 0" "1 + 1 / 256 \<le> q \<longrightarrow> md < 0"
      by blast
    let ?out = "kept (dedup_loop P md paths
        \<lparr>kept = [], kept_hashes = [], logged = [Info_frames_in (length paths) md (Finite q)]\<rparr>)"
    have "deduplicate P paths (Finite q) = Inr ?out" by (rule deduplicate_Inr [OF md(1)])
    moreover have "?out = filter (\<lambda>p. \<not> isl (fingerprint P p)) paths" if "md < 0"
      using dedup_loop_negative [OF that, of P paths] by simp
    ultimately show ?thesis using md True by auto
  next
    case False
    with out have neg: "q < 0" by simp
    with mag have "- (2 ^ 1000) \<le> q" by simp
    from max_dist_of_below_zero [OF neg this] obtain md
      where md: "max_dist_of (Finite q) = Inr md" "256 \<le> md" by blast
    let ?out = "kept (dedup_loop P md paths
        \<lparr>kept = [], kept_hashes = [], logged = [Info_frames_in (length paths) md (Finite q)]\<rparr>)"
    have "deduplicate P paths (Finite q) = Inr ?out" by (rule deduplicate_Inr [OF md(1)])
    moreover have "?out = take 1 (filter (\<lambda>p. \<not> isl (fingerprint P p)) paths)"
      by (rule dedup_loop_saturated_start [OF md(2)])
    ultimately show ?thesis using md neg by auto
  qed
  from nonfinite over large runs finite only show ?thesis by blast
qed

theorem threshold_not_validated_witness:
  "(1::rat) < 3 / 2 \<and> \<bar>3 / 2 :: rat\<bar> \<le> 2 ^ 1000 \<and> (1 + 1 / 256 :: rat) \<le> 3 / 2 \<and>
   (\<exists>md. max_dist_of (Finite (3 / 2)) = Inr md \<and> md < 0) \<and>
   deduplicate sample_pillow [''slide_000001.png'', ''missing.png'', ''slide_000005.png''] (Finite (3 / 2)) =
     Inr (filter (\<lambda>p. \<not> isl (fingerprint sample_pillow p))
            [''slide_000001.png'', ''missing.png'', ''slide_000005.png'']) \<and>
   (2 ^ 1016 :: rat) \<le> \<bar>1 - (- (2 ^ 1016))\<bar> \<and>
   deduplicate sample_pillow [''slide_000001.png'', ''missing.png'', ''slide_000005.png'']
     (Finite (- (2 ^ 1016))) = Inl OverflowError"
proof -
  have h: "((3 / 2 :: rat) < 0 \<or> 1 < (3 / 2 :: rat)) \<and> \<bar>3 / 2 :: rat\<bar> \<le> 2 ^ 1000"
    and g: "(1 + 1 / 256 :: rat) \<le> 3 / 2" by simp_all
  from threshold_not_validated [of sample_pillow
      "[''slide_000001.png'', ''missing.png'', ''slide_000005.png'']" "3 / 2"] h g
  obtain md out where "max_dist_of (Finite (3 / 2)) = Inr md" and "md < 0"
    and "deduplicate sample_pillow [''slide_000001.png'', ''missing.png'', ''slide_000005.png'']
           (Finite (3 / 2)) = Inr out"
    and "out = filter (\<lambda>p. \<not> isl (fingerprint sample_pillow p))
            [''slide_000001.png'', ''missing.png'', ''slide_000005.png'']"
    by blast
  moreover have big: "(2 ^ 1016 :: rat) \<le> \<bar>1 - (- (2 ^ 1016))\<bar>" by simp
  moreover from threshold_not_validated [of sample_pillow
      "[''slide_000001.png'', ''missing.png'', ''slide_000005.png'']" "- (2 ^ 1016)"] big
  have "deduplicate sample_pillow [''slide_000001.png'', ''missing.png'', ''slide_000005.png'']
     (Finite (- (2 ^ 1016))) = Inl OverflowError" by blast
  ultimately show ?thesis using h g by auto
qed

text \<open>
  C8. \<^verbatim>\<open>_phash\<close> asks Pillow for the grayscale image resized to the fixed size of 17 columns
  by 16 rows, whatever the image. Given the 17 * 16 luminance values Pillow returns for that
  size, the fingerprint is a number below \<open>2 ^ 256\<close> whose bit at position \<open>r * 16 + c\<close>,
  counted from the most significant of 256 bits, is set exactly when the luminance at row
  \<open>r\<close>, column \<open>c\<close> is strictly greater than the luminance at column \<open>c + 1\<close> of that row.
\<close>

theorem phash_bits:
  assumes "gray_resample P img (HASH_SIZE + 1, HASH_SIZE) = Inr pixels"
    and "length pixels = (HASH_SIZE + 1) * HASH_SIZE"
  shows "\<exists>bits. phash P img = Inr bits \<and> 0 \<le> bits \<and> bits < 2 ^ (HASH_SIZE * HASH_SIZE) \<and>
           (\<forall>r < HASH_SIZE. \<forall>c < HASH_SIZE.
              bit bits (HASH_SIZE * HASH_SIZE - 1 - (r * HASH_SIZE + c)) \<longleftrightarrow>
              pixels ! (r * (HASH_SIZE + 1) + c) > pixels ! (r * (HASH_SIZE + 1) + c + 1))"
proof -
  let ?bits = "msb_first (cell_bits pixels)"
  have run: "phash P img = Inr ?bits"
    using assms by (simp add: phash_def phash_rows_msb_first)
  have bounds: "0 \<le> ?bits" "?bits < 2 ^ (HASH_SIZE * HASH_SIZE)"
    using msb_first_bounds [of "cell_bits pixels"] by (simp_all add: cell_bits_length)
  have cells: "bit ?bits (HASH_SIZE * HASH_SIZE - 1 - (r * HASH_SIZE + c)) \<longleftrightarrow>
      pixels ! (r * (HASH_SIZE + 1) + c) > pixels ! (r * (HASH_SIZE + 1) + c + 1)"
    if "r < HASH_SIZE" and "c < HASH_SIZE" for r c
  proof -
    have "r * HASH_SIZE + c < r * HASH_SIZE + HASH_SIZE" using that(2) by simp
    also have "\<dots> = Suc r * HASH_SIZE" by simp
    also have "\<dots> \<le> HASH_SIZE * HASH_SIZE" using that(1) by (intro mult_right_mono) auto
    finally have "r * HASH_SIZE + c < length (cell_bits pixels)" by (simp add: cell_bits_length)
    from msb_first_bit [OF this] show ?thesis
      by (simp only: cell_bits_length cell_bits_nth [OF that])
  qed
  from run bounds cells show ?thesis by blast
qed

theorem phash_bits_witness:
  "gray_resample sample_pillow (frame 20) (HASH_SIZE + 1, HASH_SIZE) = Inr (frame 20) \<and>
   length (frame 20) = (HASH_SIZE + 1) * HASH_SIZE \<and>
   frame 20 ! 270 > frame 20 ! 271 \<and>
   (\<exists>bits. phash sample_pillow (frame 20) = Inr bits \<and> bits < 2 ^ 256 \<and> bit bits 0)"
proof -
  have g: "gray_resample sample_pillow (frame 20) (HASH_SIZE + 1, HASH_SIZE) = Inr (frame 20)"
    by (simp add: sample_pillow_def)
  from phash_bits [OF g frame_20_facts(1)]
  obtain bits where p: "phash sample_pillow (frame 20) = Inr bits"
    and b: "bits < 2 ^ (HASH_SIZE * HASH_SIZE)"
    and c: "\<forall>r < HASH_SIZE. \<forall>c < HASH_SIZE.
              bit bits (HASH_SIZE * HASH_SIZE - 1 - (r * HASH_SIZE + c)) \<longleftrightarrow>
              frame 20 ! (r * (HASH_SIZE + 1) + c) > frame 20 ! (r * (HASH_SIZE + 1) + c + 1)"
    by blast
  have "15 < HASH_SIZE" by (simp add: HASH_SIZE_def)
  with c have "bit bits (HASH_SIZE * HASH_SIZE - 1 - (15 * HASH_SIZE + 15)) \<longleftrightarrow>
      frame 20 ! (15 * (HASH_SIZE + 1) + 15) > frame 20 ! (15 * (HASH_SIZE + 1) + 15 + 1)"
    by blast
  then have "bit bits 0" using frame_20_facts(2) by (simp add: HASH_SIZE_def)
  with g frame_20_facts p b show ?thesis by (auto simp: HASH_SIZE_def)
qed

text \<open>
  C9, as stated, fails: two copies of one frame followed by a different frame whose
  fingerprint differs in 4 bits, at the threshold 0.5 (cutoff 128): only the first copy is kept.
\<close>

theorem copies_then_other_counterexample:
  "image_open sample_pillow ''slide_000001.png'' \<noteq> image_open sample_pillow ''slide_000004.png'' \<and>
   (1 / 2 :: rat) < 1 \<and>
   deduplicate sample_pillow [''slide_000001.png'', ''slide_000001.png'', ''slide_000004.png'']
     (Finite (1 / 2)) = Inr [''slide_000001.png'']"
  by (simp add: sample_images_differ deduplicate_Inr [OF sample_max_dist(1)]
      sample_fingerprints sample_hamming)

text \<open>
  C9, amended. For a threshold in \<open>[0, 1]\<close>, on one or more candidates holding the same image
  \<open>X\<close> followed by one candidate holding an image \<open>Y\<close>, all readable: the first copy of \<open>X\<close> is
  kept and the other copies are not; \<open>Y\<close> is kept exactly when the Hamming distance between the
  fingerprints of \<open>Y\<close> and \<open>X\<close> is strictly greater than the cutoff. So the result has two
  elements in that case and one otherwise.
\<close>

theorem copies_then_other:
  assumes "0 \<le> q" and "q \<le> 1" and "xs \<noteq> []"
    and "\<forall>x \<in> set xs. image_open P x = Inr X" and "phash P X = Inr hx"
    and "image_open P y = Inr Y" and "phash P Y = Inr hy"
  shows "\<exists>md. max_dist_of (Finite q) = Inr md \<and>
           deduplicate P (xs @ [y]) (Finite q) =
             Inr (if md < int (hamming hy hx) then [hd xs, y] else [hd xs])"
proof -
  from max_dist_of_unit_interval [OF assms(1,2)] obtain md
    where md: "max_dist_of (Finite q) = Inr md" "0 \<le> md" by blast
  from assms(3) obtain x xs' where xs: "xs = x # xs'" by (cases xs) auto
  from assms(4,5) have fx: "\<forall>x \<in> set xs. fingerprint P x = Inr hx"
    by (simp add: fingerprint_def)
  from assms(6,7) have fy: "fingerprint P y = Inr hy" by (simp add: fingerprint_def)
  let ?lg = "[Info_frames_in (length (xs @ [y])) md (Finite q)]"
  let ?s = "\<lparr>kept = [x], kept_hashes = [hx], logged = ?lg\<rparr>"
  have "dedup_loop P md xs \<lparr>kept = [], kept_hashes = [], logged = ?lg\<rparr> = dedup_loop P md xs' ?s"
    using fx by (simp add: xs)
  also have "\<dots> = ?s"
    using fx md(2) by (intro dedup_loop_same [of xs' P hx]) (simp_all add: xs)
  finally have "dedup_loop P md (xs @ [y]) \<lparr>kept = [], kept_hashes = [], logged = ?lg\<rparr> =
      dedup_loop P md [y] ?s"
    by (simp add: dedup_loop_append)
  then have "deduplicate P (xs @ [y]) (Finite q) =
      Inr (if md < int (hamming hy hx) then [hd xs, y] else [hd xs])"
    by (simp add: deduplicate_Inr [OF md(1)] fy xs)
  with md(1) show ?thesis by blast
qed

theorem copies_then_other_witness:
  "(0::rat) \<le> 241 / 256 \<and> (241 / 256 :: rat) \<le> 1 \<and>
   [''slide_000001.png'', ''slide_000005.png''] \<noteq> [] \<and>
   image_open sample_pillow ''slide_000001.png'' = Inr (frame 0) \<and>
   image_open sample_pillow ''slide_000005.png'' = Inr (frame 0) \<and>
   phash sample_pillow (frame 0) = Inr 0 \<and>
   image_open sample_pillow ''slide_000003.png'' = Inr (frame 20) \<and>
   phash sample_pillow (frame 20) = Inr 1048575 \<and>
   deduplicate sample_pillow [''slide_000001.png'', ''slide_000005.png'', ''slide_000003.png'']
     (Finite (241 / 256)) = Inr [''slide_000001.png'', ''slide_000003.png'']"
proof -
  have a: "(0::rat) \<le> 241 / 256" and b: "(241 / 256 :: rat) \<le> 1" by simp_all
  have o1: "image_open sample_pillow ''slide_000001.png'' = Inr (frame 0)"
    and o5: "image_open sample_pillow ''slide_000005.png'' = Inr (frame 0)"
    and o3: "image_open sample_pillow ''slide_000003.png'' = Inr (frame 20)"
    by (simp_all add: sample_pillow_def sample_files_def)
  have p0: "phash sample_pillow (frame 0) = Inr 0"
    using fp1 by (simp add: fingerprint_def o1)
  have p20: "phash sample_pillow (frame 20) = Inr 1048575"
    using fp3 by (simp add: fingerprint_def o3)
  have all: "\<forall>x \<in> set [''slide_000001.png'', ''slide_000005.png''].
      image_open sample_pillow x = Inr (frame 0)"
    using o1 o5 by simp
  from copies_then_other [OF a b _ all p0 o3 p20] sample_max_dist(2)
  have "deduplicate sample_pillow ([''slide_000001.png'', ''slide_000005.png''] @ [''slide_000003.png''])
     (Finite (241 / 256)) = Inr [''slide_000001.png'', ''slide_000003.png'']"
    by (auto simp: sample_hamming)
  with a b o1 o5 o3 p0 p20 show ?thesis by simp
qed

text \<open>
  C10. At every point of the pass, that is after any list \<open>pre\<close> of candidates, \<open>kept\<close> and
  \<open>kept_hashes\<close> have the same length, the \<open>i\<close>-th stored hash is the fingerprint of the
  \<open>i\<close>-th kept path, and the baseline \<open>last kept_hashes\<close> is the fingerprint of the last kept path.
\<close>

theorem kept_hashes_invariant:
  assumes "s = dedup_loop P md pre \<lparr>kept = [], kept_hashes = [], logged = lg\<rparr>"
  shows "length (kept_hashes s) = length (kept s) \<and>
         (\<forall>i < length (kept s). fingerprint P (kept s ! i) = Inr (kept_hashes s ! i)) \<and>
         (kept s \<noteq> [] \<longrightarrow> fingerprint P (last (kept s)) = Inr (last (kept_hashes s)))"
proof -
  have "length (kept_hashes s) = length (kept s) \<and>
        (\<forall>i < length (kept s). fingerprint P (kept s ! i) = Inr (kept_hashes s ! i))"
    unfolding assms by (rule dedup_loop_hashes) simp_all
  with dedup_loop_start_last [OF assms] show ?thesis by blast
qed

theorem kept_hashes_invariant_witness:
  "dedup_loop sample_pillow 10 [''slide_000001.png'', ''slide_000002.png'', ''slide_000003.png'']
     \<lparr>kept = [], kept_hashes = [], logged = []\<rparr> =
   \<lparr>kept = [''slide_000001.png'', ''slide_000002.png''], kept_hashes = [0, 4095], logged = []\<rparr> \<and>
   fingerprint sample_pillow ''slide_000001.png'' = Inr 0 \<and>
   fingerprint sample_pillow ''slide_000002.png'' = Inr 4095"
proof -
  have run: "\<lparr>kept = [''slide_000001.png'', ''slide_000002.png''], kept_hashes = [0, 4095], logged = []\<rparr> =
    dedup_loop sample_pillow 10 [''slide_000001.png'', ''slide_000002.png'', ''slide_000003.png'']
     \<lparr>kept = [], kept_hashes = [], logged = []\<rparr>"
    by (simp add: sample_fingerprints sample_hamming)
  from kept_hashes_invariant [OF run]
  have "fingerprint sample_pillow ''slide_000002.png'' = Inr 4095" by simp
  with run fp1 show ?thesis by simp
qed

end
